theory Spec2Isabelle
  imports Complex_Main "HOL-Library.Word" "HOL-Library.Signed_Division"
begin

unbundle bit_operations_syntax

section \<open>The Push 2 control surface driver (libs/surfaces/push2)\<close>

subsection \<open>Enumerations of push2.h\<close>

datatype NoteGridOrigin = Fixed | Rooted

datatype RowInterval = Third | Fourth | Fifth | Sequential

datatype PadNoteKind = RootNote | InScaleNote | OutOfScaleNote

datatype WhenPressed = Nothing | FlashOn | FlashOff

datatype LED_State =
    NoTransition | OneShot24th | OneShot16th | OneShot8th | OneShot4th | OneShot2th
  | Pulsing24th | Pulsing16th | Pulsing8th | Pulsing4th | Pulsing2th
  | Blinking24th | Blinking16th | Blinking8th | Blinking4th | Blinking2th

datatype ButtonID =
    TapTempo | Metronome
  | Upper1 | Upper2 | Upper3 | Upper4 | Upper5 | Upper6 | Upper7 | Upper8
  | Setup | User | Delete | AddDevice | Device | Mix | Undo | AddTrack | Browse | Clip
  | Mute | Solo | Stop
  | Lower1 | Lower2 | Lower3 | Lower4 | Lower5 | Lower6 | Lower7 | Lower8
  | Master | Convert | DoubleLoop | Quantize | Duplicate | New | FixedLength | Automate
  | RecordEnable | Play
  | Fwd32ndT | Fwd32nd | Fwd16thT | Fwd16th | Fwd8thT | Fwd8th | Fwd4trT | Fwd4tr
  | Up | Right | Down | Left | Repeat | Accent | Scale | Layout | Note | Session
  | OctaveUp | PageRight | OctaveDown | PageLeft | Shift | Select

text \<open>The enumerators of ButtonID in the order of their values, which is the order in which
  a std::map keyed by ButtonID is iterated.\<close>

definition button_ids :: "ButtonID list" where
  "button_ids =
     [TapTempo, Metronome,
      Upper1, Upper2, Upper3, Upper4, Upper5, Upper6, Upper7, Upper8,
      Setup, User, Delete, AddDevice, Device, Mix, Undo, AddTrack, Browse, Clip,
      Mute, Solo, Stop,
      Lower1, Lower2, Lower3, Lower4, Lower5, Lower6, Lower7, Lower8,
      Master, Convert, DoubleLoop, Quantize, Duplicate, New, FixedLength, Automate,
      RecordEnable, Play,
      Fwd32ndT, Fwd32nd, Fwd16thT, Fwd16th, Fwd8thT, Fwd8th, Fwd4trT, Fwd4tr,
      Up, Right, Down, Left, Repeat, Accent, Scale, Layout, Note, Session,
      OctaveUp, PageRight, OctaveDown, PageLeft, Shift, Select]"

subsection \<open>row_interval_semitones (push2.cc, line 82)\<close>

text \<open>The switch over the row interval. The trailing \<^verbatim>\<open>return 5\<close> of the source is
  reached by no enumerator.\<close>

fun row_interval_semitones :: "RowInterval \<Rightarrow> bool \<Rightarrow> int" where
  "row_interval_semitones Third inkey = 4"
| "row_interval_semitones Fourth inkey = 5"
| "row_interval_semitones Fifth inkey = 7"
| "row_interval_semitones Sequential inkey = (if inkey then 12 else 8)"

subsection \<open>Pads, events and the driver state\<close>

type_synonym byte = "8 word"

text \<open>LED::Colors, the palette indices of the standard colours.\<close>

definition Black :: byte where "Black = 0"
definition Red :: byte where "Red = 127"
definition Green :: byte where "Green = 126"
definition Blue :: byte where "Blue = 125"
definition DarkGray :: byte where "DarkGray = 124"
definition LightGray :: byte where "LightGray = 123"
definition White :: byte where "White = 122"

text \<open>struct LED, the base of Pad and Button; its member \<open>_state\<close> is \<open>led_state\<close>.\<close>

record LED =
  extra :: byte
  color_index :: byte
  led_state :: LED_State

text \<open>struct Pad. The members x and y are named \<open>pad_x\<close> and \<open>pad_y\<close>.\<close>

record Pad = LED +
  pad_x :: int
  pad_y :: int
  do_when_pressed :: WhenPressed
  filtered :: int
  perma_color :: int

text \<open>The constructor \<^verbatim>\<open>Pad (int xx, int yy, uint8_t ex)\<close>.\<close>

definition new_Pad :: "int \<Rightarrow> int \<Rightarrow> byte \<Rightarrow> Pad" where
  "new_Pad xx yy ex =
     \<lparr> extra = ex, color_index = Black, led_state = NoTransition,
       pad_x = xx, pad_y = yy, do_when_pressed = FlashOn,
       filtered = uint ex, perma_color = uint Black \<rparr>"

text \<open>struct Button, without its method pointers and its timeout connection; the member
  \<open>id\<close> is \<open>button_id\<close>. The constructors \<^verbatim>\<open>Button (ButtonID bb, uint8_t ex, ...)\<close>
  differ in the method pointers only.\<close>

record Button = LED +
  button_id :: ButtonID

definition new_Button :: "ButtonID \<Rightarrow> byte \<Rightarrow> Button" where
  "new_Button bb ex =
     \<lparr> extra = ex, color_index = Black, led_state = NoTransition, button_id = bb \<rparr>"

text \<open>Modelled from the spec: the MIDI event of the buffers handed to the filter
  (Evoral::Event), declared in another library of the repository. An event has a type, and
  a note event has a note number and a velocity; \<open>set_note\<close> replaces the note number.\<close>

datatype EventType =
  NoteOn | NoteOff | PitchBender | PolyPressure | ChannelPressure | OtherEvent

record Event =
  ev_type :: EventType
  ev_note :: int
  ev_velocity :: int

definition is_note_on :: "Event \<Rightarrow> bool" where
  "is_note_on ev = (ev_type ev = NoteOn)"

definition is_note_off :: "Event \<Rightarrow> bool" where
  "is_note_off ev = (ev_type ev = NoteOff)"

definition is_pitch_bender :: "Event \<Rightarrow> bool" where
  "is_pitch_bender ev = (ev_type ev = PitchBender)"

definition is_poly_pressure :: "Event \<Rightarrow> bool" where
  "is_poly_pressure ev = (ev_type ev = PolyPressure)"

definition is_channel_pressure :: "Event \<Rightarrow> bool" where
  "is_channel_pressure ev = (ev_type ev = ChannelPressure)"

definition set_note :: "int \<Rightarrow> Event \<Rightarrow> Event" where
  "set_note n ev = ev\<lparr>ev_note := n\<rparr>"

text \<open>The five layouts the constructor allocates; \<open>current_layout\<close> is a pointer to one
  of them or null (\<open>None\<close>).\<close>

datatype Layout = MixLayout | ScaleLayout | TrackMixLayout | CueLayout | SplashLayout

text \<open>Everything the driver does to the outside is recorded, in order: the byte arrays
  written to the output port, the signals emitted, and the calls into collaborators
  (layouts, session, timers).\<close>

datatype Effect =
    Write "byte list"
  | ScaleChange
  | ConnectionChange
  | DebugTrace string
  | Usleep nat
  | VblankConnect
  | VblankDisconnect
  | SessionConnect string
  | DropSessionConnections
  | LayoutShow Layout
  | LayoutHide Layout
  | CanvasAdd Layout
  | CanvasRemove Layout
  | CanvasRequestRedraw
  | PadPortConnect nat
  | PadPortDisconnect nat
  | SetStripable
  | StripVpotTouch int bool
  | OtherVpotTouch int bool
  | TransportStop
  | PadPress int int
  | PadRelease int int

text \<open>The members of class Push2 that the modelled functions read or write. The Pad objects
  are owned by \<open>nn_pad_map\<close>, a std::map kept as a list of (note number, pad) in iteration
  order; the other pad containers hold references, which are the pads' note numbers.
  \<open>fn_pad_map\<close> is the multimap from generated note to pad. The Button objects are kept
  in \<open>id_button_map\<close>, a std::map as well. \<open>current_pad_target\<close> is the MIDI track the pads
  play into, if any, the tracks of the session being numbered. The type \<open>'m\<close> is
  MusicalMode::Type, declared in libs/ardour. The stored scale configuration (\<open>_mode\<close>,
  \<open>_scale_root\<close> and so on) has the prefix \<open>cfg\<close>, since the functions' parameters have the
  same names.\<close>

record 'm push2 =
  nn_pad_map :: "(int \<times> Pad) list"
  xy_pad_map :: "int list"
  fn_pad_map :: "(int \<times> int) list"
  id_button_map :: "(ButtonID \<times> Button) list"
  current_layout :: "Layout option"
  previous_layout :: "Layout option"
  splash_start :: int
  current_pad_target :: "nat option"
  octave_shift :: int
  selection_color :: byte
  contrast_color :: byte
  cfg_mode :: 'm
  cfg_note_grid_origin :: NoteGridOrigin
  cfg_row_interval :: RowInterval
  cfg_scale_root :: int
  cfg_root_octave :: int
  cfg_in_key :: bool
  connection_state :: int
  in_use :: bool
  handle :: bool
  input_port :: bool
  output_port :: bool
  async_in_name :: string
  async_out_name :: string
  color_map :: "32 word \<rightharpoonup> byte"
  color_map_free_list :: "byte list"
  effects :: "Effect list"

definition cue_layout :: "Layout option" where
  "cue_layout = Some CueLayout"

subsection \<open>pad_filter (push2.cc, line 1152)\<close>

text \<open>The body of the loop over the input buffer, for one event: the output buffer and the
  flag \<open>matched\<close> are threaded through. The source rewrites the note of the input event,
  copies the event to the output and restores the note, so the input buffer is unchanged.\<close>

definition pad_filter_event ::
  "'m push2 \<Rightarrow> Event list \<times> bool \<Rightarrow> Event \<Rightarrow> Event list \<times> bool" where
  "pad_filter_event st acc ev =
     (case acc of (out, matched) \<Rightarrow>
        if is_note_on ev \<or> is_note_off ev then
          if ev_note ev > 10 \<and> ev_note ev \<noteq> 12 then
            (case map_of (nn_pad_map st) (ev_note ev) of
               Some pad \<Rightarrow>
                 if filtered pad \<ge> 0
                 then (out @ [set_note (filtered pad + octave_shift st * 12) ev], True)
                 else (out, True)
             | None \<Rightarrow> (out @ [ev], True))
          else (out, matched)
        else if is_pitch_bender ev \<or> is_poly_pressure ev \<or> is_channel_pressure ev
        then (out @ [ev], matched)
        else (out, matched))"

text \<open>\<open>pad_filter st inb out\<close> returns the output buffer and the result of the call.\<close>

definition pad_filter :: "'m push2 \<Rightarrow> Event list \<Rightarrow> Event list \<Rightarrow> Event list \<times> bool" where
  "pad_filter st inb out =
     (if current_layout st = cue_layout then (out, False)
      else foldl (pad_filter_event st) (out, False) inb)"

subsection \<open>Errors and loops\<close>

text \<open>\<open>OutOfRange\<close> is std::out_of_range, thrown by std::bitset's \<open>set\<close> and \<open>test\<close>;
  \<open>NullPointer\<close> is the dereference of the empty shared pointer that std::map's
  \<open>operator[]\<close> creates for a missing key. A function that can fail returns the error with
  the state reached when it was raised (\<open>Inl\<close>), or the final state (\<open>Inr\<close>).\<close>

datatype error = OutOfRange | NullPointer

text \<open>A \<open>for\<close> loop over the given values of its variable; an error leaves it.\<close>

fun for_loop :: "'a list \<Rightarrow> ('a \<Rightarrow> 's \<Rightarrow> 'e + 's) \<Rightarrow> 's \<Rightarrow> 'e + 's" where
  "for_loop [] body st = Inr st"
| "for_loop (i # is) body st =
     (case body i st of Inl e \<Rightarrow> Inl e | Inr st' \<Rightarrow> for_loop is body st')"

text \<open>Two calls in sequence: what the first throws ends the sequence.\<close>

definition and_then :: "'x + 's \<Rightarrow> ('s \<Rightarrow> 'x + 't) \<Rightarrow> 'x + 't" where
  "and_then r f = (case r of Inl thrown \<Rightarrow> Inl thrown | Inr st \<Rightarrow> f st)"

subsection \<open>The LED registry\<close>

text \<open>Modelled from the spec: the bodies of LED::set_color and LED::set_state, which
  push2.h only declares. The LED registry of the spec (\<open>set_color(control, index)\<close>,
  \<open>set_state(control, animation)\<close>) stores the colour index and the animation state in the
  control.\<close>

definition set_color :: "byte \<Rightarrow> 'a LED_scheme \<Rightarrow> 'a LED_scheme" where
  "set_color ci led = led\<lparr>color_index := ci\<rparr>"

definition set_state :: "LED_State \<Rightarrow> 'a LED_scheme \<Rightarrow> 'a LED_scheme" where
  "set_state s led = led\<lparr>led_state := s\<rparr>"

text \<open>The value of an enumerator of LED::State.\<close>

fun state_value :: "LED_State \<Rightarrow> byte" where
  "state_value NoTransition = 0"
| "state_value OneShot24th = 1"
| "state_value OneShot16th = 2"
| "state_value OneShot8th = 3"
| "state_value OneShot4th = 4"
| "state_value OneShot2th = 5"
| "state_value Pulsing24th = 6"
| "state_value Pulsing16th = 7"
| "state_value Pulsing8th = 8"
| "state_value Pulsing4th = 9"
| "state_value Pulsing2th = 10"
| "state_value Blinking24th = 11"
| "state_value Blinking16th = 12"
| "state_value Blinking8th = 13"
| "state_value Blinking4th = 14"
| "state_value Blinking2th = 15"

text \<open>Pad::state_msg and Button::state_msg (push2.h).\<close>

definition state_msg :: "Pad \<Rightarrow> byte list" where
  "state_msg pad = [0x90 OR state_value (led_state pad), extra pad, color_index pad]"

definition button_state_msg :: "Button \<Rightarrow> byte list" where
  "button_state_msg b = [0xb0 OR state_value (led_state b), extra b, color_index b]"

text \<open>Push2::write (here \<open>write_port\<close>): immediate delivery to the output port.\<close>

definition write_port :: "byte list \<Rightarrow> 'm push2 \<Rightarrow> 'm push2" where
  "write_port data st = st\<lparr>effects := effects st @ [Write data]\<rparr>"

text \<open>A change of the Pad object that \<open>nn_pad_map\<close> holds under a note number.\<close>

fun update_pad :: "int \<Rightarrow> (Pad \<Rightarrow> Pad) \<Rightarrow> (int \<times> Pad) list \<Rightarrow> (int \<times> Pad) list" where
  "update_pad k f [] = []"
| "update_pad k f (e # es) =
     (if fst e = k then (fst e, f (snd e)) # es else e # update_pad k f es)"

text \<open>A change of the Button object that \<open>id_button_map\<close> holds under a ButtonID.\<close>

fun update_button ::
  "ButtonID \<Rightarrow> (Button \<Rightarrow> Button) \<Rightarrow> (ButtonID \<times> Button) list
   \<Rightarrow> (ButtonID \<times> Button) list" where
  "update_button k f [] = []"
| "update_button k f (e # es) =
     (if fst e = k then (fst e, f (snd e)) # es else e # update_button k f es)"

text \<open>std::multimap::insert: the pair goes after the entries whose key is not greater.\<close>

fun fn_insert :: "int \<times> int \<Rightarrow> (int \<times> int) list \<Rightarrow> (int \<times> int) list" where
  "fn_insert kv [] = [kv]"
| "fn_insert kv (e # es) = (if fst kv < fst e then kv # e # es else e # fn_insert kv es)"

text \<open>Modelled from the spec: the body of Push2::build_maps, which push2.h only declares.
  The spec addresses the physical pads as \<open>36 + row*8 + col\<close> for row and col in 0..7;
  each is built with the Pad constructor. The LED registry of the spec holds the buttons by
  their ids, each with a controller number: here a Button for every ButtonID, built with the
  Button constructor, the numbers being the parameter \<open>controller_number\<close>.\<close>

definition build_maps :: "(ButtonID \<Rightarrow> byte) \<Rightarrow> 'm push2 \<Rightarrow> 'm push2" where
  "build_maps controller_number st =
     st\<lparr>id_button_map := map (\<lambda>bb. (bb, new_Button bb (controller_number bb))) button_ids,
        nn_pad_map :=
          concat (map (\<lambda>row. map (\<lambda>col. (36 + (row * 8) + col,
                                          new_Pad col row (word_of_int (36 + (row * 8) + col))))
                               [0..7]) [0..7]),
        xy_pad_map :=
          concat (map (\<lambda>row. map (\<lambda>col. 36 + (row * 8) + col) [0..7]) [0..7])\<rparr>"

subsection \<open>The scale mapper (push2.cc, lines 1348 to 1607)\<close>

definition set_pad_note_kind :: "'m push2 \<Rightarrow> PadNoteKind \<Rightarrow> Pad \<Rightarrow> Pad" where
  "set_pad_note_kind st kind pad =
     set_state NoTransition
       (case kind of
          RootNote \<Rightarrow>
            (set_color (selection_color st) pad)
              \<lparr>perma_color := uint (selection_color st), do_when_pressed := FlashOff\<rparr>
        | InScaleNote \<Rightarrow>
            (set_color White pad)\<lparr>perma_color := uint White, do_when_pressed := FlashOff\<rparr>
        | OutOfScaleNote \<Rightarrow>
            (set_color Black pad)\<lparr>do_when_pressed := FlashOn\<rparr>)"

text \<open>std::bitset<128>, as the set of the positions whose bit is set. \<open>set\<close> and \<open>test\<close>
  throw std::out_of_range for a position that is not below 128; a negative \<open>int\<close> converts
  to a position far above.\<close>

definition bitset_test :: "int set \<Rightarrow> int \<Rightarrow> error + bool" where
  "bitset_test bits pos = (if 0 \<le> pos \<and> pos < 128 then Inr (pos \<in> bits) else Inl OutOfRange)"

text \<open>The loop of mode_notes_bitset. \<open>mode_steps\<close> is \<open>MusicalMode (mode).steps\<close>, a table
  of libs/ardour: the steps are floats, here rationals, and
  \<^verbatim>\<open>(int)floor (root + (2.0 * (*i)))\<close> is the floor of the rational. The local \<open>root\<close>
  is \<open>rt\<close>, and the third argument is the rest of the steps from the iterator \<open>i\<close> on.
  \<open>notes_bitset.set (root)\<close> throws for a negative root; \<open>notes_bitset.set (note)\<close> is only
  reached with a note from 1 to 127.\<close>

function mode_notes_bitset_loop ::
  "rat list \<Rightarrow> int \<Rightarrow> rat list \<Rightarrow> int set \<Rightarrow> error + int set" where
  "mode_notes_bitset_loop mode_steps rt [] notes_bitset =
     (if rt + 12 > 127 then Inr notes_bitset
      else if \<not> (0 \<le> rt + 12 \<and> rt + 12 < 128) then Inl OutOfRange
      else mode_notes_bitset_loop mode_steps (rt + 12) mode_steps
             (insert (rt + 12) notes_bitset))"
| "mode_notes_bitset_loop mode_steps rt (s # i) notes_bitset =
     (if \<lfloor>of_int rt + 2 * s\<rfloor> > 127 then Inr notes_bitset
      else if \<lfloor>of_int rt + 2 * s\<rfloor> > 0
      then mode_notes_bitset_loop mode_steps rt i
             (insert \<lfloor>of_int rt + 2 * s\<rfloor> notes_bitset)
      else mode_notes_bitset_loop mode_steps rt i notes_bitset)"
  by pat_completeness auto
termination
  by (relation "measures [\<lambda>(ms, rt, i, b). nat (128 - rt), \<lambda>(ms, rt, i, b). length i]")
     auto

definition mode_notes_bitset :: "('m \<Rightarrow> rat list) \<Rightarrow> int \<Rightarrow> int \<Rightarrow> 'm \<Rightarrow> error + int set" where
  "mode_notes_bitset steps scale_root octave mode =
     mode_notes_bitset_loop (steps mode) (scale_root - 12) (steps mode) {}"

text \<open>The loop of mode_notes_vector; \<open>push_back\<close> appends.\<close>

function mode_notes_vector_loop ::
  "rat list \<Rightarrow> int \<Rightarrow> rat list \<Rightarrow> int list \<Rightarrow> int list" where
  "mode_notes_vector_loop mode_steps rt [] notes_vector =
     (if rt + 12 > 127 then notes_vector
      else mode_notes_vector_loop mode_steps (rt + 12) mode_steps
             (notes_vector @ [rt + 12]))"
| "mode_notes_vector_loop mode_steps rt (s # i) notes_vector =
     (if \<lfloor>of_int rt + 2 * s\<rfloor> > 127 then notes_vector
      else if \<lfloor>of_int rt + 2 * s\<rfloor> > 0
      then mode_notes_vector_loop mode_steps rt i
             (notes_vector @ [\<lfloor>of_int rt + 2 * s\<rfloor>])
      else mode_notes_vector_loop mode_steps rt i notes_vector)"
  by pat_completeness auto
termination
  by (relation "measures [\<lambda>(ms, rt, i, v). nat (128 - rt), \<lambda>(ms, rt, i, v). length i]")
     auto

declare mode_notes_vector_loop.simps [simp del]

definition mode_notes_vector :: "('m \<Rightarrow> rat list) \<Rightarrow> int \<Rightarrow> int \<Rightarrow> 'm \<Rightarrow> int list" where
  "mode_notes_vector steps scale_root octave mode =
     mode_notes_vector_loop (steps mode) (scale_root - 12) (steps mode) []"

text \<open>std::lower_bound on a vector, as the binary search of the C++ library: \<open>first\<close> is
  the position of the iterator, \<open>len\<close> the length of the range still searched. The result
  is the position of the iterator returned.\<close>

function lower_bound_loop :: "int list \<Rightarrow> int \<Rightarrow> nat \<Rightarrow> nat \<Rightarrow> nat" where
  "lower_bound_loop xs v first len =
     (if len > 0 then
        (if xs ! (first + len div 2) < v
         then lower_bound_loop xs v (first + len div 2 + 1) (len - len div 2 - 1)
         else lower_bound_loop xs v first (len div 2))
      else first)"
  by pat_completeness auto
termination
  by (relation "measure (\<lambda>(xs, v, first, len). len)") auto

declare lower_bound_loop.simps [simp del]

definition lower_bound :: "int list \<Rightarrow> int \<Rightarrow> nat" where
  "lower_bound xs v = lower_bound_loop xs v 0 (length xs)"

text \<open>The inner loop of set_pad_scale_in_key: \<open>col\<close> counts the columns and the list is
  the rest of the vector from the iterator \<open>n\<close> on; the loop ends at column 8 or at the end
  of the vector. The remainder \<open>%\<close> of C truncates towards zero (\<open>smod\<close>).\<close>

fun in_key_cols ::
  "int \<Rightarrow> int \<Rightarrow> int \<Rightarrow> int list \<Rightarrow> 'm push2 \<Rightarrow> (error \<times> 'm push2) + 'm push2" where
  "in_key_cols scale_root row col [] st = Inr st"
| "in_key_cols scale_root row col (note # n) st =
     (if col < 8 then
        (case map_of (nn_pad_map st) (36 + (row * 8) + col) of
           None \<Rightarrow> Inl (NullPointer, st)
         | Some pad \<Rightarrow>
             in_key_cols scale_root row (col + 1) n
               (st\<lparr>nn_pad_map :=
                     update_pad (36 + (row * 8) + col)
                       (\<lambda>pad. set_pad_note_kind st
                                 (if note smod 12 = scale_root then RootNote else InScaleNote)
                                 (pad\<lparr>filtered := note\<rparr>))
                       (nn_pad_map st),
                   fn_pad_map := fn_insert (note, 36 + (row * 8) + col) (fn_pad_map st)\<rparr>))
      else Inr st)"

definition set_pad_scale_in_key ::
  "('m \<Rightarrow> rat list) \<Rightarrow> int \<Rightarrow> int \<Rightarrow> 'm \<Rightarrow> NoteGridOrigin \<Rightarrow> int \<Rightarrow> 'm push2
   \<Rightarrow> (error \<times> 'm push2) + 'm push2" where
  "set_pad_scale_in_key steps scale_root octave mode origin ideal_vertical_semitones st =
     (let notes = mode_notes_vector steps scale_root octave mode;
          ideal_first_note = (if origin = Fixed then 36 else scale_root + (12 * octave))
      in for_loop [0..7]
           (\<lambda>row st.
              in_key_cols scale_root row 0
                (drop (lower_bound notes (ideal_first_note + (ideal_vertical_semitones * row)))
                      notes)
                st)
           st)"

text \<open>The body of the inner loop of set_pad_scale_chromatic. The generated note is stored in
  the pad and in \<open>fn_pad_map\<close> before \<open>notes.test (note)\<close> is evaluated.\<close>

definition chromatic_pad ::
  "int set \<Rightarrow> int \<Rightarrow> int \<Rightarrow> int \<Rightarrow> int \<Rightarrow> 'm push2 \<Rightarrow> (error \<times> 'm push2) + 'm push2" where
  "chromatic_pad notes scale_root leftmost_note row col st =
     (let note = leftmost_note + col;
          index = 36 + (row * 8) + col
      in case map_of (nn_pad_map st) index of
           None \<Rightarrow> Inl (NullPointer, st)
         | Some pad \<Rightarrow>
             (let st1 = st\<lparr>nn_pad_map :=
                             update_pad index (\<lambda>pad. pad\<lparr>filtered := note\<rparr>) (nn_pad_map st),
                           fn_pad_map := fn_insert (note, index) (fn_pad_map st)\<rparr>
              in case bitset_test notes note of
                   Inl e \<Rightarrow> Inl (e, st1)
                 | Inr in_scale \<Rightarrow>
                     Inr (st1\<lparr>nn_pad_map :=
                                update_pad index
                                  (set_pad_note_kind st1
                                     (if \<not> in_scale then OutOfScaleNote
                                      else if note smod 12 = scale_root then RootNote
                                      else InScaleNote))
                                  (nn_pad_map st1)\<rparr>)))"

definition set_pad_scale_chromatic ::
  "('m \<Rightarrow> rat list) \<Rightarrow> int \<Rightarrow> int \<Rightarrow> 'm \<Rightarrow> NoteGridOrigin \<Rightarrow> int \<Rightarrow> 'm push2
   \<Rightarrow> (error \<times> 'm push2) + 'm push2" where
  "set_pad_scale_chromatic steps scale_root octave mode origin vertical_semitones st =
     (case mode_notes_bitset steps scale_root octave mode of
        Inl e \<Rightarrow> Inl (e, st)
      | Inr notes \<Rightarrow>
          (let first_note = (if origin = Fixed then 36 else scale_root + (12 * octave))
           in for_loop [0..7]
                (\<lambda>row. for_loop [0..7]
                          (chromatic_pad notes scale_root
                             (first_note + (vertical_semitones * row)) row))
                st))"

text \<open>The first loop of set_pad_scale, for one pad.\<close>

definition reset_pad :: "Pad \<Rightarrow> Pad" where
  "reset_pad pad =
     (set_state NoTransition (set_color Black pad))
       \<lparr>perma_color := uint Black, filtered := - 1, do_when_pressed := FlashOn\<rparr>"

text \<open>The last part of set_pad_scale: the members are stored and ScaleChange is emitted if
  one of them changed.\<close>

definition store_scale ::
  "int \<Rightarrow> int \<Rightarrow> 'm \<Rightarrow> NoteGridOrigin \<Rightarrow> RowInterval \<Rightarrow> bool \<Rightarrow> 'm push2 \<Rightarrow> 'm push2" where
  "store_scale scale_root octave mode origin row_interval inkey st =
     (let changed = (cfg_scale_root st \<noteq> scale_root \<or> cfg_root_octave st \<noteq> octave
                     \<or> cfg_in_key st \<noteq> inkey \<or> cfg_mode st \<noteq> mode
                     \<or> cfg_note_grid_origin st \<noteq> origin \<or> cfg_row_interval st \<noteq> row_interval);
          st' = st\<lparr>cfg_scale_root := scale_root, cfg_root_octave := octave,
                   cfg_in_key := inkey, cfg_mode := mode,
                   cfg_note_grid_origin := origin, cfg_row_interval := row_interval\<rparr>
      in if changed then st'\<lparr>effects := effects st' @ [ScaleChange]\<rparr> else st')"

definition set_pad_scale ::
  "('m \<Rightarrow> rat list) \<Rightarrow> int \<Rightarrow> int \<Rightarrow> 'm \<Rightarrow> NoteGridOrigin \<Rightarrow> RowInterval \<Rightarrow> bool \<Rightarrow> 'm push2
   \<Rightarrow> (error \<times> 'm push2) + 'm push2" where
  "set_pad_scale steps scale_root octave mode origin row_interval inkey st =
     (let st1 = st\<lparr>fn_pad_map := [],
                   nn_pad_map := map (\<lambda>p. (fst p, reset_pad (snd p))) (nn_pad_map st)\<rparr>;
          vertical_semitones = row_interval_semitones row_interval inkey
      in case (if inkey
               then set_pad_scale_in_key steps scale_root octave mode origin
                      vertical_semitones st1
               else set_pad_scale_chromatic steps scale_root octave mode origin
                      vertical_semitones st1) of
           Inl e \<Rightarrow> Inl e
         | Inr st2 \<Rightarrow>
             Inr (store_scale scale_root octave mode origin row_interval inkey
                    (foldl (\<lambda>st p. write_port (state_msg (snd p)) st) st2 (nn_pad_map st2))))"

subsection \<open>The colour palette allocator (push2.cc, lines 1726 to 1807)\<close>

text \<open>std::map::insert keeps an entry that is already there.\<close>

definition map_insert :: "'k \<times> 'v \<Rightarrow> ('k \<rightharpoonup> 'v) \<Rightarrow> ('k \<rightharpoonup> 'v)" where
  "map_insert kv m = (if m (fst kv) = None then m(fst kv \<mapsto> snd kv) else m)"

text \<open>build_color_map. The macro RGB_TO_UINT is defined in another library of the
  repository and is a parameter. The free list is a std::stack, kept with its top first.\<close>

definition build_color_map :: "(nat \<Rightarrow> nat \<Rightarrow> nat \<Rightarrow> 32 word) \<Rightarrow> 'm push2 \<Rightarrow> 'm push2" where
  "build_color_map RGB_TO_UINT st =
     st\<lparr>color_map :=
          map_insert (RGB_TO_UINT 255 0 0, 127)
         (map_insert (RGB_TO_UINT 0 255 0, 126)
         (map_insert (RGB_TO_UINT 0 0 255, 125)
         (map_insert (RGB_TO_UINT 20 20 20, 124)
         (map_insert (RGB_TO_UINT 64 64 64, 123)
         (map_insert (RGB_TO_UINT 204 204 204, 122)
         (map_insert (RGB_TO_UINT 0 0 0, 0) (color_map st))))))),
        color_map_free_list :=
          foldl (\<lambda>free n. word_of_int n # free) (color_map_free_list st) [1..121]\<rparr>"

text \<open>get_color_index. \<open>rgb_of\<close> stands for the three integers \<open>r\<close>, \<open>g\<close>, \<open>b\<close> that the
  source computes from the colour with color_to_rgba (another library) and floating point;
  \<open>rnd\<close> is the value that \<open>random ()\<close> returns if it is called.\<close>

definition get_color_index ::
  "(32 word \<Rightarrow> int \<times> int \<times> int) \<Rightarrow> nat \<Rightarrow> 32 word \<Rightarrow> 'm push2 \<Rightarrow> byte \<times> 'm push2" where
  "get_color_index rgb_of rnd rgba st =
     (case color_map st rgba of
        Some i \<Rightarrow> (i, st)
      | None \<Rightarrow>
          (case rgb_of rgba of (r, g, b) \<Rightarrow>
             (let w = (126 :: int);
                  index = (if color_map_free_list st = []
                           then word_of_int (1 + int (rnd mod 121))
                           else hd (color_map_free_list st));
                  st1 = (if color_map_free_list st = [] then st
                         else st\<lparr>color_map_free_list := tl (color_map_free_list st)\<rparr>);
                  palette_msg =
                    [0xf0, 0x00, 0x21, 0x1d, 0x01, 0x01, 0x03,
                     index,
                     word_of_int (r AND 0x7f), word_of_int (drop_bit 7 (r AND 0x80)),
                     word_of_int (g AND 0x7f), word_of_int (drop_bit 7 (g AND 0x80)),
                     word_of_int (b AND 0x7f), word_of_int (drop_bit 7 (b AND 0x80)),
                     word_of_int (w AND 0x7f), word_of_int (w AND 0x80),
                     0xf7];
                  st2 = write_port palette_msg st1;
                  st3 = write_port [0xf0, 0x00, 0x21, 0x1d, 0x01, 0x01, 0x05, 0xF7] st2
              in (index, st3\<lparr>color_map := (color_map st3)(rgba \<mapsto> index)\<rparr>))))"

text \<open>The states of the allocator: the state that build_color_map leaves at construction
  (the map and the stack are empty before), and every state that a call of get_color_index
  leaves. Nothing else in the driver writes the map or the free list.\<close>

inductive color_reachable ::
  "(nat \<Rightarrow> nat \<Rightarrow> nat \<Rightarrow> 32 word) \<Rightarrow> (32 word \<Rightarrow> int \<times> int \<times> int) \<Rightarrow> 'm push2 \<Rightarrow> bool"
  for RGB_TO_UINT rgb_of where
  built: "color_map st = Map.empty \<Longrightarrow> color_map_free_list st = []
          \<Longrightarrow> color_reachable RGB_TO_UINT rgb_of (build_color_map RGB_TO_UINT st)"
| allocated: "color_reachable RGB_TO_UINT rgb_of st
          \<Longrightarrow> color_reachable RGB_TO_UINT rgb_of (snd (get_color_index rgb_of rnd rgba st))"

subsection \<open>The connection state machine (push2.cc, lines 204 to 259, 340 to 366, 1241 to 1301)\<close>

text \<open>enum ConnectionState.\<close>

definition InputConnected :: int where "InputConnected = 0x1"
definition OutputConnected :: int where "OutputConnected = 0x2"

definition debug_trace :: "string \<Rightarrow> 'm push2 \<Rightarrow> 'm push2" where
  "debug_trace msg st = st\<lparr>effects := effects st @ [DebugTrace msg]\<rparr>"

definition effect :: "Effect \<Rightarrow> 'm push2 \<Rightarrow> 'm push2" where
  "effect e st = st\<lparr>effects := effects st @ [e]\<rparr>"

text \<open>device_acquire. \<open>usb_open\<close> and \<open>usb_claim\<close> say whether libusb opens the device and
  claims its interface when asked; \<open>handle\<close> says whether the USB handle is held.\<close>

definition device_acquire :: "bool \<Rightarrow> bool \<Rightarrow> 'm push2 \<Rightarrow> int \<times> 'm push2" where
  "device_acquire usb_open usb_claim st =
     (let st = debug_trace ''acquiring device'' st
      in if handle st then (0, debug_trace ''open() called with handle already set'' st)
         else if \<not> usb_open then (- 1, debug_trace ''failed to open USB handle'' st)
         else if \<not> usb_claim
         then (- 1, (debug_trace ''failed to claim USB device'' st)\<lparr>handle := False\<rparr>)
         else (0, st\<lparr>handle := True\<rparr>))"

text \<open>What a call finds outside the driver: the steps of a musical mode
  (\<open>MusicalMode (mode).steps\<close>, a table of libs/ardour), whether libusb opens the device and
  claims its interface when asked, the value of \<open>get_microseconds ()\<close>, whether the input
  port has a shadow port, the first MIDI track among \<open>last_selected ()\<close> with its colour, the
  channels of a colour and the opposite of a colour (\<open>HSV (c).opposite ().color ()\<close>), and
  the values that \<open>random ()\<close> returns in the two calls of get_color_index that
  stripable_selection_changed makes.\<close>

record MidiTrack =
  track_id :: nat
  track_color :: "32 word"

record 'm outside =
  musical_mode_steps :: "'m \<Rightarrow> rat list"
  libusb_open :: bool
  libusb_claim :: bool
  microseconds :: int
  shadow_port :: bool
  first_selected_midi_track :: "MidiTrack option"
  color_to_rgb :: "32 word \<Rightarrow> int \<times> int \<times> int"
  opposite_color :: "32 word \<Rightarrow> 32 word"
  random1 :: nat
  random2 :: nat

text \<open>connect_session_signals (line 899): six signals of the session and of the
  configuration are connected.\<close>

definition connect_session_signals :: "'m push2 \<Rightarrow> 'm push2" where
  "connect_session_signals st =
     foldl (\<lambda>st signal. effect (SessionConnect signal) st) st
       [''session->RecordStateChanged'', ''session->TransportStateChange'',
        ''session->TransportLooped'', ''Config->ParameterChanged'',
        ''session->config.ParameterChanged'', ''session->SoloActive'']"

text \<open>The body of the loops of init_buttons and strip_buttons_off over an array of button
  ids: \<open>_id_button_map[id]\<close> is an empty pointer for an id that the map does not hold.\<close>

definition set_button ::
  "byte \<Rightarrow> LED_State \<Rightarrow> ButtonID \<Rightarrow> 'm push2 \<Rightarrow> (error \<times> 'm push2) + 'm push2" where
  "set_button color state bid st =
     (case map_of (id_button_map st) bid of
        None \<Rightarrow> Inl (NullPointer, st)
      | Some b \<Rightarrow>
          Inr (write_port (button_state_msg (set_state state (set_color color b)))
                 (st\<lparr>id_button_map :=
                       update_button bid (\<lambda>b. set_state state (set_color color b))
                         (id_button_map st)\<rparr>)))"

text \<open>strip_buttons_off (line 392).\<close>

definition strip_buttons_off :: "'m push2 \<Rightarrow> (error \<times> 'm push2) + 'm push2" where
  "strip_buttons_off st =
     for_loop [Upper1, Upper2, Upper3, Upper4, Upper5, Upper6, Upper7, Upper8,
               Lower1, Lower2, Lower3, Lower4, Lower5, Lower6, Lower7, Lower8]
       (set_button Black OneShot24th) st"

text \<open>The loop of init_buttons over the whole of \<open>_id_button_map\<close>, for one entry.\<close>

definition blackout_button :: "'m push2 \<Rightarrow> ButtonID \<Rightarrow> 'm push2" where
  "blackout_button st bid =
     (case map_of (id_button_map st) bid of
        None \<Rightarrow> st
      | Some b \<Rightarrow>
          write_port (button_state_msg (set_state NoTransition (set_color Black b)))
            (st\<lparr>id_button_map :=
                  update_button bid (\<lambda>b. set_state NoTransition (set_color Black b))
                    (id_button_map st)\<rparr>))"

text \<open>init_buttons (line 408).\<close>

definition init_buttons :: "bool \<Rightarrow> 'm push2 \<Rightarrow> (error \<times> 'm push2) + 'm push2" where
  "init_buttons startup st =
     (if startup then
        and_then
          (for_loop [Mute, Solo, Master, Up, Right, Left, Down, Note, Session, Mix, AddTrack,
                     Delete, Undo, Metronome, Shift, Select, Play, RecordEnable, Automate,
                     Repeat, Note, Session, Quantize, Duplicate, Browse, PageRight, PageLeft,
                     OctaveUp, OctaveDown, Layout, Scale, Stop]
             (set_button White NoTransition) st)
          (for_loop [TapTempo, Setup, User, Convert, New, FixedLength, Clip,
                     Fwd32ndT, Fwd32nd, Fwd16thT, Fwd16th, Fwd8thT, Fwd8th, Fwd4trT, Fwd4tr,
                     Accent, Note]
             (set_button Black OneShot24th))
      else
        (let st = (case current_layout st of None \<Rightarrow> st | Some l \<Rightarrow> effect (LayoutHide l) st)
         in Inr (foldl blackout_button st (map fst (id_button_map st)))))"

text \<open>init_touch_strip (line 556): byte 7 of the message is
  \<^verbatim>\<open>(1<<4) | (1<<5) | (1<<6)\<close>.\<close>

definition init_touch_strip :: "'m push2 \<Rightarrow> 'm push2" where
  "init_touch_strip st =
     write_port [0xf0, 0x00, 0x21, 0x1d, 0x01, 0x01, 0x17,
                 push_bit 4 1 OR push_bit 5 1 OR push_bit 6 1, 0xf7] st"

text \<open>request_pressure_mode (line 1874).\<close>

definition request_pressure_mode :: "'m push2 \<Rightarrow> 'm push2" where
  "request_pressure_mode st = write_port [0xF0, 0x00, 0x21, 0x1D, 0x01, 0x01, 0x1F, 0xF7] st"

text \<open>reset_pad_colors (line 1343).\<close>

definition reset_pad_colors ::
  "('m \<Rightarrow> rat list) \<Rightarrow> 'm push2 \<Rightarrow> (error \<times> 'm push2) + 'm push2" where
  "reset_pad_colors steps st =
     set_pad_scale steps (cfg_scale_root st) (cfg_root_octave st) (cfg_mode st)
       (cfg_note_grid_origin st) (cfg_row_interval st) (cfg_in_key st) st"

text \<open>set_current_layout (line 1842). The calls into the layouts and the canvas are recorded
  as effects.\<close>

definition set_current_layout :: "Layout option \<Rightarrow> 'm push2 \<Rightarrow> 'm push2" where
  "set_current_layout layout st =
     (if layout \<noteq> None \<and> layout = current_layout st
      then (case current_layout st of None \<Rightarrow> st | Some l \<Rightarrow> effect (LayoutShow l) st)
      else
        (let st = (case current_layout st of
                     None \<Rightarrow> st
                   | Some l \<Rightarrow>
                       (effect (CanvasRemove l) (effect (LayoutHide l) st))
                         \<lparr>previous_layout := current_layout st\<rparr>);
             st = st\<lparr>current_layout := layout\<rparr>;
             st = (case current_layout st of
                     None \<Rightarrow> st
                   | Some l \<Rightarrow> effect (LayoutShow l) (effect (CanvasAdd l) st))
         in effect CanvasRequestRedraw st))"

text \<open>splash (line 491); \<open>now\<close> is the value of \<open>get_microseconds ()\<close>.\<close>

definition splash :: "int \<Rightarrow> 'm push2 \<Rightarrow> 'm push2" where
  "splash now st = (set_current_layout (Some SplashLayout) st)\<lparr>splash_start := now\<rparr>"

text \<open>stripable_selection_changed (line 1662). The first statement dereferences
  \<open>_async_in\<close>, which is set together with \<open>_input_port\<close>. The connections of the pad port
  to the tracks and the call into the track mix layout are recorded as effects.\<close>

definition stripable_selection_changed ::
  "'m outside \<Rightarrow> 'm push2 \<Rightarrow> (error \<times> 'm push2) + 'm push2" where
  "stripable_selection_changed w st =
     (if \<not> input_port st then Inl (NullPointer, st)
      else
        (let pad_port = shadow_port w;
             current_midi_track = current_pad_target st;
             new_pad_target = first_selected_midi_track w
         in and_then
              (if current_midi_track \<noteq> map_option track_id new_pad_target then
                 (let st = (case current_midi_track of
                              None \<Rightarrow> st
                            | Some t \<Rightarrow> if pad_port then effect (PadPortDisconnect t) st else st);
                      st = (case new_pad_target of
                              None \<Rightarrow>
                                st\<lparr>current_pad_target := None,
                                   selection_color := Green, contrast_color := Green\<rparr>
                            | Some t \<Rightarrow>
                                if pad_port then
                                  (let st = (effect (PadPortConnect (track_id t)) st)
                                              \<lparr>current_pad_target := Some (track_id t)\<rparr>;
                                       sel = get_color_index (color_to_rgb w) (random1 w)
                                               (track_color t) st;
                                       st = (snd sel)\<lparr>selection_color := fst sel\<rparr>;
                                       con = get_color_index (color_to_rgb w) (random2 w)
                                               (opposite_color w (track_color t)) st
                                   in (snd con)\<lparr>contrast_color := fst con\<rparr>)
                                else
                                  st\<lparr>current_pad_target := None,
                                     selection_color := Green, contrast_color := Green\<rparr>)
                  in reset_pad_colors (musical_mode_steps w) st)
               else Inr st)
              (\<lambda>st. Inr (effect SetStripable st))))"

text \<open>begin_using_device (line 204). The timer of the vblank callback is recorded as an
  effect. A call that throws ends begin_using_device with the state reached.\<close>

definition begin_using_device ::
  "'m outside \<Rightarrow> 'm push2 \<Rightarrow> (error \<times> 'm push2) + (int \<times> 'm push2)" where
  "begin_using_device w st =
     (let st = debug_trace ''begin using device'' st;
          st = effect VblankConnect st;
          st = connect_session_signals st
      in and_then (init_buttons True st)
           (\<lambda>st. and_then (reset_pad_colors (musical_mode_steps w) (init_touch_strip st))
           (\<lambda>st. and_then (stripable_selection_changed w (splash (microseconds w) st))
           (\<lambda>st. Inr (0, (request_pressure_mode st)\<lparr>in_use := True\<rparr>)))))"

text \<open>The loop of stop_using_device over the pads, for one pad.\<close>

definition blackout_pad :: "'m push2 \<Rightarrow> int \<Rightarrow> 'm push2" where
  "blackout_pad st k =
     (case map_of (nn_pad_map st) k of
        None \<Rightarrow> st
      | Some pad \<Rightarrow>
          write_port (state_msg (set_state NoTransition (set_color Black pad)))
            (st\<lparr>nn_pad_map :=
                  update_pad k (\<lambda>pad. set_state NoTransition (set_color Black pad))
                    (nn_pad_map st)\<rparr>))"

text \<open>stop_using_device (line 235).\<close>

definition stop_using_device :: "'m push2 \<Rightarrow> (error \<times> 'm push2) + (int \<times> 'm push2)" where
  "stop_using_device st =
     (let st = debug_trace ''stop using device'' st
      in if \<not> in_use st then Inr (0, debug_trace ''nothing to do, device not in use'' st)
         else
           and_then (init_buttons False st)
             (\<lambda>st. and_then (strip_buttons_off st)
             (\<lambda>st. Inr (0, (effect DropSessionConnections
                               (effect VblankDisconnect
                                  (foldl blackout_pad st (xy_pad_map st))))
                            \<lparr>in_use := False\<rparr>))))"

text \<open>connection_handler, for the notification that the connection between the ports
  \<open>name1\<close> and \<open>name2\<close> was made (\<open>yn\<close>) or broken. \<open>async_in_name\<close> and \<open>async_out_name\<close>
  are the full names of the driver's two ports.\<close>

definition update_connection_state ::
  "string \<Rightarrow> string \<Rightarrow> bool \<Rightarrow> 'm push2 \<Rightarrow> 'm push2 option" where
  "update_connection_state name1 name2 yn st =
     (let ni = async_in_name st; no = async_out_name st
      in if ni = name1 \<or> ni = name2 then
           (if yn
            then Some (st\<lparr>connection_state := connection_state st OR InputConnected\<rparr>)
            else Some (st\<lparr>connection_state := connection_state st AND NOT InputConnected\<rparr>))
         else if no = name1 \<or> no = name2 then
           (if yn
            then Some (st\<lparr>connection_state := connection_state st OR OutputConnected\<rparr>)
            else Some (st\<lparr>connection_state := connection_state st AND NOT OutputConnected\<rparr>))
         else None)"

definition connection_handler ::
  "'m outside \<Rightarrow> string \<Rightarrow> string \<Rightarrow> bool \<Rightarrow> 'm push2
   \<Rightarrow> (error \<times> 'm push2) + (bool \<times> 'm push2)" where
  "connection_handler w name1 name2 yn st =
     (let st = debug_trace ''FaderPort::connection_handler start'' st
      in if \<not> input_port st \<or> \<not> output_port st then Inr (False, st)
         else
           (case update_connection_state name1 name2 yn st of
              None \<Rightarrow> Inr (False, debug_trace ''Connections changed, but I ignored it'' st)
            | Some st \<Rightarrow>
                (let st = debug_trace ''our ports changed connection state'' st
                 in and_then
                      (if connection_state st AND (InputConnected OR OutputConnected)
                            = (InputConnected OR OutputConnected)
                       then begin_using_device w
                              (snd (device_acquire (libusb_open w) (libusb_claim w)
                                      (debug_trace
                                         ''device now connected for both input and output''
                                         (effect (Usleep 100000) st))))
                       else stop_using_device
                              (debug_trace
                                 ''Device disconnected or not yet fully connected'' st))
                      (\<lambda>r. Inr (True,
                                 debug_trace ''FaderPort::connection_handler  end''
                                   (effect ConnectionChange (snd r)))))))"

text \<open>The state that a call leaves, whether it returns or throws.\<close>

definition state_of :: "('e \<times> 's) + ('a \<times> 's) \<Rightarrow> 's" where
  "state_of r = (case r of Inl e \<Rightarrow> snd e | Inr x \<Rightarrow> snd x)"

text \<open>The number of calls of begin_using_device and of stop_using_device that a list of
  effects records: each call starts with its trace line.\<close>

definition begin_calls :: "Effect list \<Rightarrow> nat" where
  "begin_calls es = length (filter (\<lambda>e. e = DebugTrace ''begin using device'') es)"

definition stop_calls :: "Effect list \<Rightarrow> nat" where
  "stop_calls es = length (filter (\<lambda>e. e = DebugTrace ''stop using device'') es)"

subsection \<open>The handlers of incoming notes (push2.cc, lines 744 to 880)\<close>

text \<open>MIDI::EventTwoBytes, as the handlers read it.\<close>

record EventTwoBytes =
  note_number :: int
  velocity :: int

text \<open>other_vpot_touch: only \<open>n = 2\<close> touches the master gain control.\<close>

definition other_vpot_touch :: "int \<Rightarrow> bool \<Rightarrow> 'm push2 \<Rightarrow> 'm push2" where
  "other_vpot_touch n touching st =
     (if n = 0 then st else if n = 1 then st
      else if n = 2 then effect (OtherVpotTouch n touching) st else st)"

text \<open>A call through the pointer \<open>_current_layout\<close>.\<close>

definition layout_call :: "Effect \<Rightarrow> 'm push2 \<Rightarrow> (error \<times> 'm push2) + 'm push2" where
  "layout_call e st =
     (case current_layout st of None \<Rightarrow> Inl (NullPointer, st) | Some l \<Rightarrow> Inr (effect e st))"

text \<open>std::multimap::equal_range: the references stored under a key, in order; and the test
  that its first iterator is the end of the map, which holds when no key is at least the
  given one.\<close>

definition equal_range :: "int \<Rightarrow> (int \<times> int) list \<Rightarrow> int list" where
  "equal_range k m = map snd (filter (\<lambda>e. fst e = k) m)"

definition equal_range_at_end :: "int \<Rightarrow> (int \<times> int) list \<Rightarrow> bool" where
  "equal_range_at_end k m = list_all (\<lambda>e. fst e < k) m"

text \<open>The loop of handle_midi_note_off_message over the pads with the note, for one pad.\<close>

definition restore_pad :: "'m push2 \<Rightarrow> int \<Rightarrow> 'm push2" where
  "restore_pad st k =
     (case map_of (nn_pad_map st) k of
        None \<Rightarrow> st
      | Some pad \<Rightarrow>
          write_port
            (state_msg (set_state NoTransition (set_color (word_of_int (perma_color pad)) pad)))
            (st\<lparr>nn_pad_map :=
                  update_pad k
                    (\<lambda>pad. set_state NoTransition (set_color (word_of_int (perma_color pad)) pad))
                    (nn_pad_map st)\<rparr>))"

definition handle_midi_note_off_message ::
  "EventTwoBytes \<Rightarrow> 'm push2 \<Rightarrow> (error \<times> 'm push2) + 'm push2" where
  "handle_midi_note_off_message ev st =
     (if note_number ev < 11 then Inr st
      else
        (case map_of (nn_pad_map st) (note_number ev) of
           None \<Rightarrow> Inr st
         | Some pad_pressed \<Rightarrow>
             if current_layout st = cue_layout
             then layout_call (PadRelease (pad_x pad_pressed) (pad_y pad_pressed)) st
             else if equal_range_at_end (filtered pad_pressed) (fn_pad_map st) then Inr st
             else Inr (foldl restore_pad st
                         (equal_range (filtered pad_pressed) (fn_pad_map st)))))"

text \<open>The loop of handle_midi_note_on_message over the pads with the note, for one pad.\<close>

definition flash_pad :: "'m push2 \<Rightarrow> int \<Rightarrow> 'm push2" where
  "flash_pad st k =
     (case map_of (nn_pad_map st) k of
        None \<Rightarrow> st
      | Some pad \<Rightarrow>
          (let pad' = (if do_when_pressed pad = FlashOn
                       then set_state NoTransition (set_color (contrast_color st) pad)
                       else if do_when_pressed pad = FlashOff
                       then set_state NoTransition (set_color Black pad)
                       else pad)
           in write_port (state_msg pad')
                (st\<lparr>nn_pad_map := update_pad k (\<lambda>pad. pad') (nn_pad_map st)\<rparr>)))"

text \<open>The switch of handle_midi_note_on_message over the note number.\<close>

definition note_on_switch ::
  "EventTwoBytes \<Rightarrow> 'm push2 \<Rightarrow> (error \<times> 'm push2) + 'm push2" where
  "note_on_switch ev st =
     (let n = note_number ev
      in if 0 \<le> n \<and> n \<le> 7 then layout_call (StripVpotTouch n (velocity ev > 64)) st
         else if n = 10 then Inr (other_vpot_touch 0 (velocity ev > 64) st)
         else if n = 9 then Inr (other_vpot_touch 1 (velocity ev > 64) st)
         else if n = 8 then Inr (other_vpot_touch 3 (velocity ev > 64) st)
         else if n = 12 then (if velocity ev < 64 then Inr (effect TransportStop st) else Inr st)
         else Inr st)"

definition handle_midi_note_on_message ::
  "EventTwoBytes \<Rightarrow> 'm push2 \<Rightarrow> (error \<times> 'm push2) + 'm push2" where
  "handle_midi_note_on_message ev st =
     (if velocity ev = 0 then handle_midi_note_off_message ev st
      else
        (case note_on_switch ev st of
           Inl e \<Rightarrow> Inl e
         | Inr st \<Rightarrow>
             if note_number ev < 11 then Inr st
             else
               (case map_of (nn_pad_map st) (note_number ev) of
                  None \<Rightarrow> Inr st
                | Some pad_pressed \<Rightarrow>
                    if current_layout st = cue_layout
                    then layout_call (PadPress (pad_x pad_pressed) (pad_y pad_pressed)) st
                    else if equal_range_at_end (filtered pad_pressed) (fn_pad_map st)
                    then Inr st
                    else Inr (foldl flash_pad st
                                (equal_range (filtered pad_pressed) (fn_pad_map st))))))"

text \<open>connect_to_parser (line 603): the parser's signals for Note-On and for Note-Off
  messages are both bound to handle_midi_note_on_message.\<close>

definition parser_note_on ::
  "EventTwoBytes \<Rightarrow> 'm push2 \<Rightarrow> (error \<times> 'm push2) + 'm push2" where
  "parser_note_on ev st = handle_midi_note_on_message ev st"

definition parser_note_off ::
  "EventTwoBytes \<Rightarrow> 'm push2 \<Rightarrow> (error \<times> 'm push2) + 'm push2" where
  "parser_note_off ev st = handle_midi_note_on_message ev st"

text \<open>A velocity-zero Note-On of a buffer read as the Note-Off it stands for.\<close>

definition as_note_off :: "Event \<Rightarrow> Event" where
  "as_note_off ev =
     (if is_note_on ev \<and> ev_velocity ev = 0 then ev\<lparr>ev_type := NoteOff\<rparr> else ev)"

subsection \<open>The driver as constructed\<close>

text \<open>The members as the constructor of Push2 initialises them, followed by build_maps and
  build_color_map, with both ports registered. The enumerator MusicalMode::IonianMajor, the
  member \<open>_note_grid_origin\<close> (which the constructor does not initialise), the controller
  numbers of the buttons and the port names are parameters.\<close>

definition new_Push2 ::
  "'m \<Rightarrow> NoteGridOrigin \<Rightarrow> (nat \<Rightarrow> nat \<Rightarrow> nat \<Rightarrow> 32 word) \<Rightarrow> (ButtonID \<Rightarrow> byte)
   \<Rightarrow> string \<Rightarrow> string \<Rightarrow> 'm push2" where
  "new_Push2 IonianMajor origin RGB_TO_UINT controller_number in_name out_name =
     build_color_map RGB_TO_UINT
       (build_maps controller_number
          \<lparr> nn_pad_map = [], xy_pad_map = [], fn_pad_map = [], id_button_map = [],
            current_layout = None, previous_layout = None, splash_start = 0,
            current_pad_target = None, octave_shift = 0,
            selection_color = Green, contrast_color = Green,
            cfg_mode = IonianMajor, cfg_note_grid_origin = origin,
            cfg_row_interval = Fourth, cfg_scale_root = 0, cfg_root_octave = 3,
            cfg_in_key = True,
            connection_state = 0, in_use = False, handle = False,
            input_port = True, output_port = True,
            async_in_name = in_name, async_out_name = out_name,
            color_map = Map.empty, color_map_free_list = [],
            effects = [] \<rparr>)"

text \<open>Calls of get_color_index in sequence, each with the value \<open>random ()\<close> would return
  and the colour asked for.\<close>

definition get_color_indices ::
  "(32 word \<Rightarrow> int \<times> int \<times> int) \<Rightarrow> (nat \<times> 32 word) list \<Rightarrow> 'm push2 \<Rightarrow> 'm push2" where
  "get_color_indices rgb_of calls st =
     foldl (\<lambda>st c. snd (get_color_index rgb_of (fst c) (snd c) st)) st calls"

subsection \<open>Example states\<close>

text \<open>A packing of three channels into a colour key, controller numbers that count the
  button ids, a driver as constructed, and the same driver while the mix layout is shown,
  shifted up two octaves, with the pad of note 37 unmapped.\<close>

definition example_RGB_TO_UINT :: "nat \<Rightarrow> nat \<Rightarrow> nat \<Rightarrow> 32 word" where
  "example_RGB_TO_UINT r g b =
     push_bit 16 (word_of_nat r) OR push_bit 8 (word_of_nat g) OR word_of_nat b"

definition example_controller_number :: "ButtonID \<Rightarrow> byte" where
  "example_controller_number bb = word_of_nat (length (takeWhile (\<lambda>b. b \<noteq> bb) button_ids))"

definition example_Push2 :: "nat push2" where
  "example_Push2 =
     new_Push2 0 Fixed example_RGB_TO_UINT example_controller_number
       ''Push 2 in'' ''Push 2 out''"

definition example_playing :: "nat push2" where
  "example_playing =
     example_Push2\<lparr>current_layout := Some MixLayout, octave_shift := 2,
       nn_pad_map := update_pad 37 (\<lambda>pad. pad\<lparr>filtered := - 1\<rparr>) (nn_pad_map example_Push2)\<rparr>"

text \<open>The seven standard colours get seven different keys; and the state holds each of
  them under its standard palette index.\<close>

definition reserved_keys_distinct :: "(nat \<Rightarrow> nat \<Rightarrow> nat \<Rightarrow> 32 word) \<Rightarrow> bool" where
  "reserved_keys_distinct RGB_TO_UINT =
     distinct [RGB_TO_UINT 0 0 0, RGB_TO_UINT 204 204 204, RGB_TO_UINT 64 64 64,
               RGB_TO_UINT 20 20 20, RGB_TO_UINT 0 0 255, RGB_TO_UINT 0 255 0,
               RGB_TO_UINT 255 0 0]"

definition reserved_seeded :: "(nat \<Rightarrow> nat \<Rightarrow> nat \<Rightarrow> 32 word) \<Rightarrow> 'm push2 \<Rightarrow> bool" where
  "reserved_seeded RGB_TO_UINT st =
     (color_map st (RGB_TO_UINT 0 0 0) = Some 0
      \<and> color_map st (RGB_TO_UINT 204 204 204) = Some 122
      \<and> color_map st (RGB_TO_UINT 64 64 64) = Some 123
      \<and> color_map st (RGB_TO_UINT 20 20 20) = Some 124
      \<and> color_map st (RGB_TO_UINT 0 0 255) = Some 125
      \<and> color_map st (RGB_TO_UINT 0 255 0) = Some 126
      \<and> color_map st (RGB_TO_UINT 255 0 0) = Some 127)"


text \<open>The channels of a colour key, and the members before build_maps and build_color_map
  run.\<close>

definition example_rgb_of :: "32 word \<Rightarrow> int \<times> int \<times> int" where
  "example_rgb_of c =
     (uint (drop_bit 24 c AND 255), uint (drop_bit 16 c AND 255), uint (drop_bit 8 c AND 255))"

definition example_members :: "nat push2" where
  "example_members =
     \<lparr> nn_pad_map = [], xy_pad_map = [], fn_pad_map = [], id_button_map = [],
       current_layout = None, previous_layout = None, splash_start = 0,
       current_pad_target = None, octave_shift = 0,
       selection_color = Green, contrast_color = Green,
       cfg_mode = 0, cfg_note_grid_origin = Fixed,
       cfg_row_interval = Fourth, cfg_scale_root = 0, cfg_root_octave = 3,
       cfg_in_key = True,
       connection_state = 0, in_use = False, handle = False,
       input_port = True, output_port = True,
       async_in_name = ''Push 2 in'', async_out_name = ''Push 2 out'',
       color_map = Map.empty, color_map_free_list = [],
       effects = [] \<rparr>"

text \<open>Both bits of the connection state are set.\<close>

definition fully_connected :: "'m push2 \<Rightarrow> bool" where
  "fully_connected st =
     (connection_state st AND (InputConnected OR OutputConnected)
        = (InputConnected OR OutputConnected))"


text \<open>The steps of the major scale, for every mode number.\<close>

definition example_steps :: "nat \<Rightarrow> rat list" where
  "example_steps m = [1, 2, 5 / 2, 7 / 2, 9 / 2, 11 / 2]"

text \<open>An outside where the device can be opened, the input port has a shadow port and no
  MIDI track is selected.\<close>

definition example_outside :: "nat outside" where
  "example_outside =
     \<lparr> musical_mode_steps = example_steps, libusb_open = True, libusb_claim = True,
       microseconds = 1000000, shadow_port = True, first_selected_midi_track = None,
       color_to_rgb = example_rgb_of, opposite_color = (\<lambda>c. NOT c),
       random1 = 0, random2 = 0 \<rparr>"

text \<open>The constructed driver after its input port was connected, after its output port was
  connected as well, and after its input port was then connected to a second port.\<close>

definition example_input_connected :: "nat push2" where
  "example_input_connected =
     state_of (connection_handler example_outside ''Push 2 in'' ''system:midi_capture_1'' True
                 example_Push2)"

definition example_connected :: "nat push2" where
  "example_connected =
     state_of (connection_handler example_outside ''system:midi_playback_1'' ''Push 2 out'' True
                 example_input_connected)"

definition example_connected_again :: "nat push2" where
  "example_connected_again =
     state_of (connection_handler example_outside ''Push 2 in'' ''system:midi_capture_2'' True
                 example_connected)"

text \<open>The connected driver after its output port was disconnected.\<close>

definition example_output_lost :: "nat push2" where
  "example_output_lost =
     state_of (connection_handler example_outside ''Push 2 out'' ''system:midi_playback_1'' False
                 example_connected)"

subsection \<open>Notions for the properties of the scale mapper\<close>

text \<open>The 64 physical pads, of note numbers 36 to 99, are in \<open>nn_pad_map\<close>.\<close>

definition has_pads :: "'m push2 \<Rightarrow> bool" where
  "has_pads st = list_all (\<lambda>i. map_of (nn_pad_map st) i \<noteq> None) [36..99]"

text \<open>The kind that set_pad_scale_chromatic gives the pad of a note that is in the range of
  the bitset.\<close>

definition chromatic_kind :: "int set \<Rightarrow> int \<Rightarrow> int \<Rightarrow> PadNoteKind" where
  "chromatic_kind bits scale_root n =
     (if n \<notin> bits then OutOfScaleNote
      else if n smod 12 = scale_root then RootNote else InScaleNote)"

text \<open>What set_pad_scale_chromatic does to the pad of note number \<open>k\<close>, whose row is
  \<open>(k - 36) div 8\<close> and whose column is \<open>(k - 36) mod 8\<close>.\<close>

definition chromatic_assign ::
  "'m push2 \<Rightarrow> int set \<Rightarrow> int \<Rightarrow> int \<Rightarrow> int \<Rightarrow> int \<Rightarrow> Pad \<Rightarrow> Pad" where
  "chromatic_assign st bits scale_root first_note vs k pad =
     set_pad_note_kind st
       (chromatic_kind bits scale_root (first_note + vs * ((k - 36) div 8) + (k - 36) mod 8))
       (pad\<lparr>filtered := first_note + vs * ((k - 36) div 8) + (k - 36) mod 8\<rparr>)"

text \<open>The grid recomputed in chromatic placement from root 0 in octave 10.\<close>

definition example_overflow :: "(error \<times> nat push2) + nat push2" where
  "example_overflow = set_pad_scale example_steps 0 10 0 Rooted Fourth False example_Push2"

text \<open>The steps of a mode, doubled and rounded down, increase strictly and lie strictly
  between 0 and 12 semitones.\<close>

definition valid_mode_steps :: "rat list \<Rightarrow> bool" where
  "valid_mode_steps ms =
     (sorted_wrt (<) (map (\<lambda>s. \<lfloor>2 * s\<rfloor>) ms)
      \<and> list_all (\<lambda>s. 0 < \<lfloor>2 * s\<rfloor> \<and> \<lfloor>2 * s\<rfloor> < 12) ms)"

text \<open>The interval set of a mode rooted at a root: the pitch class of the root, and of the
  root raised by each doubled step.\<close>

definition mode_interval_set :: "rat list \<Rightarrow> int \<Rightarrow> int set" where
  "mode_interval_set ms scale_root =
     (\<lambda>k. (scale_root + k) mod 12) ` insert 0 ((\<lambda>s. \<lfloor>2 * s\<rfloor>) ` set ms)"

text \<open>The note the loop of mode_notes_vector looks at next.\<close>

definition next_note :: "int \<Rightarrow> rat list \<Rightarrow> int" where
  "next_note rt i = (case i of [] \<Rightarrow> rt + 12 | s # _ \<Rightarrow> rt + \<lfloor>2 * s\<rfloor>)"

text \<open>The kind that set_pad_scale_in_key gives the pad of a note.\<close>

definition in_key_kind :: "int \<Rightarrow> int \<Rightarrow> PadNoteKind" where
  "in_key_kind scale_root n = (if n smod 12 = scale_root then RootNote else InScaleNote)"

text \<open>What set_pad_scale_in_key does to the pad of note number \<open>k\<close> in a row filled
  from the list \<open>row_notes\<close>.\<close>

definition in_key_assign :: "'m push2 \<Rightarrow> int \<Rightarrow> int list \<Rightarrow> int \<Rightarrow> Pad \<Rightarrow> Pad" where
  "in_key_assign st scale_root row_notes k pad =
     set_pad_note_kind st (in_key_kind scale_root (row_notes ! nat ((k - 36) mod 8)))
       (pad\<lparr>filtered := row_notes ! nat ((k - 36) mod 8)\<rparr>)"

text \<open>The sorted in-scale note sequence, in the words of the specification: the MIDI notes
  0 to 127 whose pitch class is in the interval set of the mode rooted at the root, in
  ascending order. And the notes of a row: the first in-scale note that is at least the ideal
  leftmost note, and the in-scale notes that follow it, for eight columns.\<close>

definition in_scale_notes :: "rat list \<Rightarrow> int \<Rightarrow> int list" where
  "in_scale_notes ms scale_root =
     filter (\<lambda>n. n mod 12 \<in> mode_interval_set ms scale_root) [0..127]"

definition in_key_row :: "rat list \<Rightarrow> int \<Rightarrow> int \<Rightarrow> int list" where
  "in_key_row ms scale_root ideal_leftmost_note =
     take 8 (dropWhile (\<lambda>n. n < ideal_leftmost_note) (in_scale_notes ms scale_root))"

text \<open>What the release of a note does to a pad that generates it: the pad shows its
  permanent colour again.\<close>

definition released :: "Pad \<Rightarrow> Pad" where
  "released pad = pad\<lparr>color_index := word_of_int (perma_color pad), led_state := NoTransition\<rparr>"

text \<open>The effects that a call added to those of the state it started from.\<close>

definition new_effects :: "'m push2 \<Rightarrow> (error \<times> 'm push2) + 'm push2 \<Rightarrow> Effect list" where
  "new_effects st r =
     drop (length (effects st)) (effects (case r of Inl e \<Rightarrow> snd e | Inr st' \<Rightarrow> st'))"

text \<open>The constructed driver while the mix layout is shown, with the grid of C major in key
  from note 36 and rows a fourth apart: the pads of note numbers 39 and 44 both generate the
  note 41. And the same driver after the pad of note number 39 was pressed.\<close>

definition example_grid :: "nat push2" where
  "example_grid =
     (case set_pad_scale example_steps 0 3 0 Fixed Fourth True
             (example_Push2\<lparr>current_layout := Some MixLayout\<rparr>) of
        Inl e \<Rightarrow> snd e | Inr st \<Rightarrow> st)"

definition example_held :: "nat push2" where
  "example_held =
     (case parser_note_on \<lparr>note_number = 39, velocity = 100\<rparr> example_grid of
        Inl e \<Rightarrow> snd e | Inr st \<Rightarrow> st)"

subsection \<open>Notions for the properties of the connection state machine\<close>

text \<open>Every button id has a Button in \<open>id_button_map\<close>. A driver is ready when its pads and
  buttons are there, its input port is registered and its stored scale is in key (so that
  reset_pad_colors does not leave the range of MIDI notes).\<close>

definition has_buttons :: "'m push2 \<Rightarrow> bool" where
  "has_buttons st = list_all (\<lambda>b. map_of (id_button_map st) b \<noteq> None) button_ids"

definition ready :: "'m push2 \<Rightarrow> bool" where
  "ready st = (has_pads st \<and> has_buttons st \<and> cfg_in_key st \<and> input_port st)"

text \<open>The second state has the connection members of the first and records as many calls of
  begin_using_device and of stop_using_device.\<close>

definition kept :: "'m push2 \<Rightarrow> 'm push2 \<Rightarrow> bool" where
  "kept st st' =
     (connection_state st' = connection_state st \<and> in_use st' = in_use st
      \<and> input_port st' = input_port st \<and> output_port st' = output_port st
      \<and> async_in_name st' = async_in_name st \<and> async_out_name st' = async_out_name st
      \<and> begin_calls (effects st') = begin_calls (effects st)
      \<and> stop_calls (effects st') = stop_calls (effects st))"

text \<open>A step that keeps the driver ready and the connection as it is.\<close>

definition quiet :: "'m push2 \<Rightarrow> 'm push2 \<Rightarrow> bool" where
  "quiet st st' = (ready st' \<and> kept st st')"

section \<open>Theorems\<close>

subsection \<open>Row interval\<close>

text \<open>C5 (as stated): the vertical interval of Sequential is 8 whatever the in-key flag is.
  The source returns 12 for Sequential when the in-key flag is set, so the value does depend
  on the flag.\<close>

theorem row_interval_sequential_inkey_counterexample:
  "row_interval_semitones Sequential True = 12
   \<and> row_interval_semitones Sequential True \<noteq> 8
   \<and> row_interval_semitones Sequential True \<noteq> row_interval_semitones Sequential False"
  by simp

text \<open>C5 (amended): the vertical interval is 4 for Third, 5 for Fourth and 7 for Fifth,
  whatever the in-key flag is; for Sequential it is 8 in chromatic placement and 12 in in-key
  placement.\<close>

theorem row_interval_semitones_values:
  "row_interval_semitones Third inkey = 4
   \<and> row_interval_semitones Fourth inkey = 5
   \<and> row_interval_semitones Fifth inkey = 7
   \<and> row_interval_semitones Sequential False = 8
   \<and> row_interval_semitones Sequential True = 12"
  by simp

subsection \<open>Evaluation of the example states\<close>

lemmas example_defs =
  example_playing_def example_Push2_def new_Push2_def build_color_map_def build_maps_def
  new_Pad_def Black_def upto.simps


subsection \<open>The realtime note filter\<close>

text \<open>The loop appends to the output buffer what each event contributes, whatever the
  buffer holds already.\<close>

lemma pad_filter_event_out:
  "pad_filter_event st (out, m) ev =
     (out @ fst (pad_filter_event st ([], False) ev),
      m \<or> snd (pad_filter_event st ([], False) ev))"
  by (simp add: pad_filter_event_def split: option.splits)

lemma foldl_pad_filter_event:
  "foldl (pad_filter_event st) (out, m) inb =
     (out @ concat (map (\<lambda>ev. fst (pad_filter_event st ([], False) ev)) inb),
      m \<or> (\<exists>ev \<in> set inb. snd (pad_filter_event st ([], False) ev)))"
proof (induction inb arbitrary: out m)
  case Nil
  show ?case by simp
next
  case (Cons ev inb)
  have "foldl (pad_filter_event st) (out, m) (ev # inb)
        = foldl (pad_filter_event st)
            (out @ fst (pad_filter_event st ([], False) ev),
             m \<or> snd (pad_filter_event st ([], False) ev)) inb"
    using pad_filter_event_out [of st out m ev] by simp
  then show ?case
    by (simp add: Cons.IH disj_assoc)
qed


text \<open>C1: when the current layout is not the cue layout, the output of pad_filter is made
  of the outputs for the incoming events, one after the other; a Note-On or Note-Off whose
  note is above 10 and not 12 and whose pad has a filtered note that is not negative is passed
  with the note \<open>filtered + 12 * octave_shift\<close>; nothing is passed for a pad whose filtered
  note is negative; a pitch-bend, poly-pressure or channel-pressure event is passed as it is;
  and in the cue layout the output buffer is left as it was and the result is false.\<close>

theorem pad_filter_rewrites:
  "(current_layout st = cue_layout \<longrightarrow> pad_filter st inb out = (out, False))
   \<and> (current_layout st \<noteq> cue_layout \<longrightarrow>
        fst (pad_filter st inb out)
          = out @ concat (map (\<lambda>ev. fst (pad_filter st [ev] [])) inb))
   \<and> (current_layout st \<noteq> cue_layout \<and> (is_note_on ev \<or> is_note_off ev)
        \<and> ev_note ev > 10 \<and> ev_note ev \<noteq> 12
        \<and> map_of (nn_pad_map st) (ev_note ev) = Some pad \<and> filtered pad \<ge> 0 \<longrightarrow>
        fst (pad_filter st [ev] []) = [set_note (filtered pad + 12 * octave_shift st) ev])
   \<and> (current_layout st \<noteq> cue_layout \<and> (is_note_on ev \<or> is_note_off ev)
        \<and> ev_note ev > 10 \<and> ev_note ev \<noteq> 12
        \<and> map_of (nn_pad_map st) (ev_note ev) = Some pad \<and> filtered pad < 0 \<longrightarrow>
        fst (pad_filter st [ev] []) = [])
   \<and> (current_layout st \<noteq> cue_layout
        \<and> (is_pitch_bender ev \<or> is_poly_pressure ev \<or> is_channel_pressure ev) \<longrightarrow>
        fst (pad_filter st [ev] []) = [ev])"
proof (intro conjI impI)
  show "pad_filter st inb out = (out, False)" if "current_layout st = cue_layout"
    using that by (simp add: pad_filter_def)
  show "fst (pad_filter st inb out) = out @ concat (map (\<lambda>ev. fst (pad_filter st [ev] [])) inb)"
    if "current_layout st \<noteq> cue_layout"
    using that by (simp add: pad_filter_def foldl_pad_filter_event)
qed (auto simp: pad_filter_def pad_filter_event_def mult.commute
      is_note_on_def is_note_off_def is_pitch_bender_def is_poly_pressure_def
      is_channel_pressure_def)


text \<open>The witness of C1: a press and a release of the pad of note 36 (filtered note 36, two
  octaves up), a press of the unmapped pad of note 37 and a pitch bend.\<close>

theorem pad_filter_rewrites_witness:
  "fst (pad_filter example_playing
          [\<lparr>ev_type = NoteOn, ev_note = 36, ev_velocity = 100\<rparr>,
           \<lparr>ev_type = NoteOn, ev_note = 37, ev_velocity = 100\<rparr>,
           \<lparr>ev_type = PitchBender, ev_note = 0, ev_velocity = 64\<rparr>,
           \<lparr>ev_type = NoteOff, ev_note = 36, ev_velocity = 0\<rparr>] [])
     = [\<lparr>ev_type = NoteOn, ev_note = 60, ev_velocity = 100\<rparr>,
        \<lparr>ev_type = PitchBender, ev_note = 0, ev_velocity = 64\<rparr>,
        \<lparr>ev_type = NoteOff, ev_note = 60, ev_velocity = 0\<rparr>]
   \<and> pad_filter (example_playing\<lparr>current_layout := cue_layout\<rparr>)
         [\<lparr>ev_type = NoteOn, ev_note = 36, ev_velocity = 100\<rparr>] [] = ([], False)"
proof -
  let ?on = "\<lparr>ev_type = NoteOn, ev_note = 36, ev_velocity = 100\<rparr>"
  let ?un = "\<lparr>ev_type = NoteOn, ev_note = 37, ev_velocity = 100\<rparr>"
  let ?pb = "\<lparr>ev_type = PitchBender, ev_note = 0, ev_velocity = 64\<rparr>"
  let ?off = "\<lparr>ev_type = NoteOff, ev_note = 36, ev_velocity = 0\<rparr>"
  have lay: "current_layout example_playing \<noteq> cue_layout"
    by (simp add: example_defs cue_layout_def)
  have p36: "map_of (nn_pad_map example_playing) 36 = Some (new_Pad 0 0 36)"
    by (simp add: example_defs)
  have p37: "map_of (nn_pad_map example_playing) 37 = Some ((new_Pad 1 0 37)\<lparr>filtered := - 1\<rparr>)"
    by (simp add: example_defs)
  have sh: "octave_shift example_playing = 2"
    by (simp add: example_defs)
  have a: "fst (pad_filter example_playing [?on] []) = [set_note (36 + 12 * 2) ?on]"
    using pad_filter_rewrites [of example_playing "[]" "[]" ?on "new_Pad 0 0 36"] lay p36 sh
    by (simp add: is_note_on_def new_Pad_def)
  have b: "fst (pad_filter example_playing [?un] []) = []"
    using pad_filter_rewrites [of example_playing "[]" "[]" ?un "(new_Pad 1 0 37)\<lparr>filtered := - 1\<rparr>"]
      lay p37
    by (simp add: is_note_on_def)
  have c: "fst (pad_filter example_playing [?pb] []) = [?pb]"
    using pad_filter_rewrites [of example_playing "[]" "[]" ?pb] lay
    by (simp add: is_pitch_bender_def)
  have d: "fst (pad_filter example_playing [?off] []) = [set_note (36 + 12 * 2) ?off]"
    using pad_filter_rewrites [of example_playing "[]" "[]" ?off "new_Pad 0 0 36"] lay p36 sh
    by (simp add: is_note_off_def new_Pad_def)
  have e: "fst (pad_filter example_playing [?on, ?un, ?pb, ?off] [])
           = concat (map (\<lambda>ev. fst (pad_filter example_playing [ev] [])) [?on, ?un, ?pb, ?off])"
    using pad_filter_rewrites [of example_playing "[?on, ?un, ?pb, ?off]" "[]"] lay
    by simp
  have f: "pad_filter (example_playing\<lparr>current_layout := cue_layout\<rparr>) [?on] [] = ([], False)"
    using pad_filter_rewrites [of "example_playing\<lparr>current_layout := cue_layout\<rparr>" "[?on]" "[]"]
    by simp
  show ?thesis
    using a b c d e f by (simp add: set_note_def)
qed


text \<open>C10 (as stated): every Note-On or Note-Off whose note is above 10, not 12 and not
  in the note-to-pad map is passed through unmodified. In the cue layout the filter returns
  before it looks at any event, and the event is not passed.\<close>

theorem pad_filter_drops_in_cue_layout_counterexample:
  "is_note_on \<lparr>ev_type = NoteOn, ev_note = 11, ev_velocity = 100\<rparr>
   \<and> map_of (nn_pad_map (example_playing\<lparr>current_layout := cue_layout\<rparr>)) 11 = None
   \<and> pad_filter (example_playing\<lparr>current_layout := cue_layout\<rparr>)
         [\<lparr>ev_type = NoteOn, ev_note = 11, ev_velocity = 100\<rparr>] [] = ([], False)"
  by (simp add: is_note_on_def pad_filter_def example_defs)


text \<open>C10 (amended): when the current layout is not the cue layout, every Note-On or
  Note-Off whose note is above 10, not 12 and not in the note-to-pad map is appended to the
  output buffer unmodified, alone or among the other events of the input buffer.\<close>

theorem pad_filter_passes_non_pad_notes:
  "current_layout st \<noteq> cue_layout \<Longrightarrow> is_note_on ev \<or> is_note_off ev
   \<Longrightarrow> ev_note ev > 10 \<Longrightarrow> ev_note ev \<noteq> 12
   \<Longrightarrow> map_of (nn_pad_map st) (ev_note ev) = None
   \<Longrightarrow> ev \<in> set inb
   \<Longrightarrow> fst (pad_filter st [ev] out) = out @ [ev]
       \<and> ev \<in> set (fst (pad_filter st inb out))"
proof -
  assume a: "current_layout st \<noteq> cue_layout" "is_note_on ev \<or> is_note_off ev"
    "ev_note ev > 10" "ev_note ev \<noteq> 12" "map_of (nn_pad_map st) (ev_note ev) = None"
    "ev \<in> set inb"
  have one: "fst (pad_filter_event st ([], False) ev) = [ev]"
    using a by (simp add: pad_filter_event_def)
  have "fst (pad_filter st [ev] out) = out @ [ev]"
    using a by (simp add: pad_filter_def pad_filter_event_def)
  moreover have "ev \<in> set (fst (pad_filter st inb out))"
    using a one by (simp add: pad_filter_def foldl_pad_filter_event) force
  ultimately show ?thesis by simp
qed

theorem pad_filter_passes_non_pad_notes_witness:
  "fst (pad_filter example_playing
          [\<lparr>ev_type = NoteOn, ev_note = 11, ev_velocity = 100\<rparr>] [])
     = [\<lparr>ev_type = NoteOn, ev_note = 11, ev_velocity = 100\<rparr>]"
proof -
  have "map_of (nn_pad_map example_playing) 11 = None"
    by (simp add: example_defs)
  moreover have "current_layout example_playing \<noteq> cue_layout"
    by (simp add: example_defs cue_layout_def)
  ultimately show ?thesis
    using pad_filter_passes_non_pad_notes
      [of example_playing "\<lparr>ev_type = NoteOn, ev_note = 11, ev_velocity = 100\<rparr>"
          "[\<lparr>ev_type = NoteOn, ev_note = 11, ev_velocity = 100\<rparr>]" "[]"]
    by (simp add: is_note_on_def)
qed

subsection \<open>The colour palette allocator\<close>

lemma get_color_index_cached:
  "color_map st rgba = Some i \<Longrightarrow> get_color_index rgb_of rnd rgba st = (i, st)"
  by (simp add: get_color_index_def)

lemma get_color_index_caches:
  "color_map (snd (get_color_index rgb_of rnd rgba st)) rgba
     = Some (fst (get_color_index rgb_of rnd rgba st))"
  by (auto simp: get_color_index_def Let_def write_port_def split: option.splits prod.splits)

lemma get_color_index_keeps:
  "color_map st c = Some i \<Longrightarrow> color_map (snd (get_color_index rgb_of rnd rgba st)) c = Some i"
  by (auto simp: get_color_index_def Let_def write_port_def split: option.splits prod.splits)

lemma get_color_indices_keeps:
  "color_map st c = Some i \<Longrightarrow> color_map (get_color_indices rgb_of calls st) c = Some i"
  unfolding get_color_indices_def
  by (induction calls arbitrary: st) (auto simp: get_color_index_keeps)


text \<open>C7: a second call of get_color_index with the same colour returns the index of the
  first call and leaves the state as it is, so nothing more is written to the device; this
  also holds when other colours were asked for in between.\<close>

theorem get_color_index_idempotent:
  "get_color_index rgb_of rnd2 rgba (snd (get_color_index rgb_of rnd1 rgba st))
     = (fst (get_color_index rgb_of rnd1 rgba st), snd (get_color_index rgb_of rnd1 rgba st))
   \<and> get_color_index rgb_of rnd2 rgba
         (get_color_indices rgb_of calls (snd (get_color_index rgb_of rnd1 rgba st)))
     = (fst (get_color_index rgb_of rnd1 rgba st),
        get_color_indices rgb_of calls (snd (get_color_index rgb_of rnd1 rgba st)))"
  by (simp add: get_color_index_cached get_color_index_caches get_color_indices_keeps)

lemma foldl_push: "foldl (\<lambda>free n. f n # free) free ns = rev (map f ns) @ free"
  by (induction ns arbitrary: free) auto

lemma build_free_list:
  "color_map_free_list (build_color_map R st)
     = rev (map word_of_int [1..121]) @ color_map_free_list st"
  by (simp add: build_color_map_def foldl_push)

lemma byte_of_int_range:
  "word_of_int ` {1..121} = {i :: byte. 1 \<le> i \<and> i \<le> 121}"
proof (intro set_eqI iffI)
  fix i :: byte
  assume "i \<in> word_of_int ` {1..121}"
  then obtain k :: int where k: "1 \<le> k" "k \<le> 121" "i = word_of_int k" by auto
  then have "uint i = k"
    by (simp add: uint_word_of_int take_bit_eq_mod)
  then show "i \<in> {i. 1 \<le> i \<and> i \<le> 121}"
    using k by (simp add: word_le_def)
next
  fix i :: byte
  assume "i \<in> {i. 1 \<le> i \<and> i \<le> 121}"
  then have "1 \<le> uint i" "uint i \<le> 121" by (simp_all add: word_le_def)
  moreover have "i = word_of_int (uint i)" by simp
  ultimately show "i \<in> word_of_int ` {1..121}"
    by (metis atLeastAtMost_iff imageI)
qed

lemma map_insert_apply:
  "map_insert p m k = (if m (fst p) = None \<and> k = fst p then Some (snd p) else m k)"
  by (simp add: map_insert_def)

lemma foldr_map_insert:
  "foldr map_insert ps m k = (case m k of Some v \<Rightarrow> Some v | None \<Rightarrow> map_of (rev ps) k)"
proof (induction ps arbitrary: k)
  case Nil
  show ?case by (simp split: option.splits)
next
  case (Cons p ps)
  have "foldr map_insert (p # ps) m k = map_insert p (foldr map_insert ps m) k"
    by simp
  also have "\<dots> = (if foldr map_insert ps m (fst p) = None \<and> k = fst p then Some (snd p)
                   else foldr map_insert ps m k)"
    by (rule map_insert_apply)
  also have "\<dots> = (case m k of Some v \<Rightarrow> Some v | None \<Rightarrow> map_of (rev (p # ps)) k)"
    by (cases p) (auto simp: Cons.IH map_add_def split: option.splits)
  finally show ?case .
qed

lemma build_color_map_foldr:
  "color_map (build_color_map R st)
     = foldr map_insert
         [(R 255 0 0, 127), (R 0 255 0, 126), (R 0 0 255, 125), (R 20 20 20, 124),
          (R 64 64 64, 123), (R 204 204 204, 122), (R 0 0 0, 0)] (color_map st)"
  by (simp add: build_color_map_def)

lemma build_color_map_apply:
  "color_map st = Map.empty \<Longrightarrow>
   color_map (build_color_map R st) k =
     (if k = R 0 0 0 then Some 0
      else if k = R 204 204 204 then Some 122
      else if k = R 64 64 64 then Some 123
      else if k = R 20 20 20 then Some 124
      else if k = R 0 0 255 then Some 125
      else if k = R 0 255 0 then Some 126
      else if k = R 255 0 0 then Some 127
      else None)"
  by (simp add: build_color_map_foldr foldr_map_insert del: foldr.simps)

lemma build_color_map_ran:
  assumes "color_map st = Map.empty"
  shows "ran (color_map (build_color_map R st)) \<subseteq> {0, 122, 123, 124, 125, 126, 127}"
proof
  fix i assume "i \<in> ran (color_map (build_color_map R st))"
  then obtain k where "color_map (build_color_map R st) k = Some i"
    by (auto simp: ran_def)
  then show "i \<in> {0, 122, 123, 124, 125, 126, 127}"
    unfolding build_color_map_apply [OF assms] by (simp split: if_splits)
qed

lemma build_color_map_seeded:
  assumes "reserved_keys_distinct R" and "color_map st = Map.empty"
  shows "reserved_seeded R (build_color_map R st)"
proof -
  have d: "distinct [R 0 0 0, R 204 204 204, R 64 64 64, R 20 20 20, R 0 0 255, R 0 255 0,
                     R 255 0 0]"
    using assms(1) by (simp add: reserved_keys_distinct_def)
  have "color_map (build_color_map R st) (R 0 0 0) = Some 0"
    unfolding build_color_map_apply [OF assms(2)] by simp
  moreover have "color_map (build_color_map R st) (R 204 204 204) = Some 122"
    unfolding build_color_map_apply [OF assms(2)] using d by auto
  moreover have "color_map (build_color_map R st) (R 64 64 64) = Some 123"
    unfolding build_color_map_apply [OF assms(2)] using d by auto
  moreover have "color_map (build_color_map R st) (R 20 20 20) = Some 124"
    unfolding build_color_map_apply [OF assms(2)] using d by auto
  moreover have "color_map (build_color_map R st) (R 0 0 255) = Some 125"
    unfolding build_color_map_apply [OF assms(2)] using d by auto
  moreover have "color_map (build_color_map R st) (R 0 255 0) = Some 126"
    unfolding build_color_map_apply [OF assms(2)] using d by auto
  moreover have "color_map (build_color_map R st) (R 255 0 0) = Some 127"
    unfolding build_color_map_apply [OF assms(2)] using d by auto
  ultimately show ?thesis by (simp add: reserved_seeded_def)
qed

lemma get_color_index_seeded:
  "reserved_seeded R st \<Longrightarrow> reserved_seeded R (snd (get_color_index rgb_of rnd rgba st))"
  by (simp add: reserved_seeded_def get_color_index_keeps)

lemma get_color_index_free_list:
  "set (color_map_free_list (snd (get_color_index rgb_of rnd rgba st)))
     \<subseteq> set (color_map_free_list st)"
  by (auto simp: get_color_index_def Let_def write_port_def
      split: option.splits prod.splits dest: list.set_sel(2))

lemma color_reachable_invariant:
  "color_reachable R rgb_of st \<Longrightarrow> reserved_keys_distinct R \<Longrightarrow>
   reserved_seeded R st \<and> set (color_map_free_list st) \<subseteq> {i. 1 \<le> i \<and> i \<le> 121}"
proof (induction rule: color_reachable.induct)
  case (built st)
  then show ?case
    using byte_of_int_range by (simp add: build_color_map_seeded build_free_list)
next
  case (allocated st rnd rgba)
  then show ?case
    using get_color_index_free_list [of rgb_of rnd rgba st]
    by (auto simp: get_color_index_seeded)
qed

lemma fallback_index_range:
  "1 \<le> (word_of_int (1 + int (rnd mod 121)) :: byte)
   \<and> (word_of_int (1 + int (rnd mod 121)) :: byte) \<le> 121"
proof -
  have "1 + int (rnd mod 121) \<in> {1..121}" by auto
  then have "(word_of_int (1 + int (rnd mod 121)) :: byte) \<in> word_of_int ` {1..121}"
    by (rule imageI)
  then show ?thesis unfolding byte_of_int_range by simp
qed

lemma new_index_range:
  assumes "set (color_map_free_list st) \<subseteq> {i. 1 \<le> i \<and> i \<le> 121}"
    and "color_map st rgba = None"
  shows "1 \<le> fst (get_color_index rgb_of rnd rgba st)
         \<and> fst (get_color_index rgb_of rnd rgba st) \<le> 121"
proof (cases "color_map_free_list st = []")
  case True
  then show ?thesis
    using assms(2) fallback_index_range [of rnd]
    by (simp add: get_color_index_def Let_def split: prod.splits)
next
  case False
  then have "hd (color_map_free_list st) \<in> set (color_map_free_list st)" by simp
  then have "1 \<le> hd (color_map_free_list st) \<and> hd (color_map_free_list st) \<le> 121"
    using assms(1) by auto
  then show ?thesis
    using assms(2) False
    by (simp add: get_color_index_def Let_def split: prod.splits)
qed


text \<open>C8: with keys that tell the seven standard colours apart, build_color_map leaves
  indices 0 and 122 to 127 in the colour map under the standard colours, and the free list
  holds 121 down to 1, which are exactly the indices from 1 to 121 that no colour is mapped
  to. In every state the allocator reaches afterwards, the standard colours are still mapped
  to their indices, and the index that get_color_index returns for a colour that is not in
  the map is between 1 and 121, from the free list or from the random fallback.\<close>

theorem reserved_palette_entries:
  assumes "reserved_keys_distinct RGB_TO_UINT"
    and "color_map st0 = Map.empty" and "color_map_free_list st0 = []"
    and "color_reachable RGB_TO_UINT rgb_of st"
  shows "reserved_seeded RGB_TO_UINT (build_color_map RGB_TO_UINT st0)
    \<and> color_map_free_list (build_color_map RGB_TO_UINT st0) = rev (map word_of_int [1..121])
    \<and> set (color_map_free_list (build_color_map RGB_TO_UINT st0))
          = {i. 1 \<le> i \<and> i \<le> 121
                \<and> i \<notin> ran (color_map (build_color_map RGB_TO_UINT st0))}
    \<and> reserved_seeded RGB_TO_UINT st
    \<and> (color_map st rgba = None \<longrightarrow>
          1 \<le> fst (get_color_index rgb_of rnd rgba st)
          \<and> fst (get_color_index rgb_of rnd rgba st) \<le> 121)"
proof -
  have seeded: "reserved_seeded RGB_TO_UINT (build_color_map RGB_TO_UINT st0)"
    using assms(1,2) by (rule build_color_map_seeded)
  have fl: "color_map_free_list (build_color_map RGB_TO_UINT st0) = rev (map word_of_int [1..121])"
    using assms(3) by (simp add: build_free_list)
  have "ran (color_map (build_color_map RGB_TO_UINT st0)) \<subseteq> {0, 122, 123, 124, 125, 126, 127}"
    using assms(2) by (rule build_color_map_ran)
  then have "\<And>i :: byte. 1 \<le> i \<Longrightarrow> i \<le> 121
      \<Longrightarrow> i \<notin> ran (color_map (build_color_map RGB_TO_UINT st0))"
    by (auto simp: word_le_def)
  then have exact: "set (color_map_free_list (build_color_map RGB_TO_UINT st0))
           = {i. 1 \<le> i \<and> i \<le> 121
                 \<and> i \<notin> ran (color_map (build_color_map RGB_TO_UINT st0))}"
    unfolding fl using byte_of_int_range by auto
  have kept: "reserved_seeded RGB_TO_UINT st"
    using color_reachable_invariant [OF assms(4,1)] by simp
  have fresh: "color_map st rgba = None \<longrightarrow>
           1 \<le> fst (get_color_index rgb_of rnd rgba st)
           \<and> fst (get_color_index rgb_of rnd rgba st) \<le> 121"
    using color_reachable_invariant [OF assms(4,1)] new_index_range by blast
  show ?thesis
    using seeded fl exact kept fresh by (intro conjI)
qed

lemma example_Push2_built:
  "example_Push2 = build_color_map example_RGB_TO_UINT
     (build_maps example_controller_number example_members)"
  by (simp add: example_Push2_def new_Push2_def example_members_def)

theorem reserved_palette_entries_witness:
  "reserved_keys_distinct example_RGB_TO_UINT
   \<and> color_map example_Push2 (example_RGB_TO_UINT 204 204 204) = Some 122
   \<and> color_map example_Push2 0x11223344 = None
   \<and> 1 \<le> fst (get_color_index example_rgb_of 7 0x11223344 example_Push2)
   \<and> fst (get_color_index example_rgb_of 7 0x11223344 example_Push2) \<le> 121"
proof -
  have d: "reserved_keys_distinct example_RGB_TO_UINT"
    by (simp add: reserved_keys_distinct_def example_RGB_TO_UINT_def)
  have e: "color_map (build_maps example_controller_number example_members) = Map.empty"
    "color_map_free_list (build_maps example_controller_number example_members) = []"
    by (simp_all add: build_maps_def example_members_def)
  have r: "color_reachable example_RGB_TO_UINT example_rgb_of example_Push2"
    unfolding example_Push2_built using e by (rule color_reachable.built)
  have n: "color_map example_Push2 0x11223344 = None"
    unfolding example_Push2_built
    by (simp add: build_color_map_apply [OF e(1)] example_RGB_TO_UINT_def)
  show ?thesis
    using reserved_palette_entries [OF d e r, of "0x11223344" 7] d n
    by (simp add: reserved_seeded_def example_Push2_built)
qed

subsection \<open>The scale mapper: pads and loops\<close>

lemma map_of_update_pad:
  "map_of (update_pad k f ps) k' = (if k' = k then map_option f (map_of ps k) else map_of ps k')"
  by (induction ps) auto

lemma has_pads_iff:
  "has_pads st \<longleftrightarrow> (\<forall>i. 36 \<le> i \<and> i \<le> 99 \<longrightarrow> map_of (nn_pad_map st) i \<noteq> None)"
  unfolding has_pads_def list_all_iff set_upto by (simp add: Ball_def)

lemma set_pad_note_kind_color:
  assumes "selection_color st1 = selection_color st2"
  shows "set_pad_note_kind st1 = set_pad_note_kind st2"
  unfolding set_pad_note_kind_def fun_eq_iff assms by simp

text \<open>A loop whose iterations assign pads at disjoint sets of note numbers.\<close>

lemma for_loop_pads:
  assumes step: "\<And>i st. i \<in> set is \<Longrightarrow> Pre st \<Longrightarrow>
            \<exists>st'. body i st = Inr st' \<and> Pre st'
              \<and> (\<forall>k. map_of (nn_pad_map st') k
                       = (if k \<in> K i then map_option (A k) (map_of (nn_pad_map st) k)
                          else map_of (nn_pad_map st) k))"
    and dist: "distinct is" "\<And>i j. i \<in> set is \<Longrightarrow> j \<in> set is \<Longrightarrow> i \<noteq> j \<Longrightarrow> K i \<inter> K j = {}"
    and pre: "Pre st"
  shows "\<exists>st'. for_loop is body st = Inr st' \<and> Pre st'
              \<and> (\<forall>k. map_of (nn_pad_map st') k
                       = (if k \<in> (\<Union>i\<in>set is. K i) then map_option (A k) (map_of (nn_pad_map st) k)
                          else map_of (nn_pad_map st) k))"
  using assms
proof (induction "is" arbitrary: st)
  case Nil
  then show ?case by simp
next
  case (Cons i "is")
  obtain st1 where s1: "body i st = Inr st1" "Pre st1"
    "\<forall>k. map_of (nn_pad_map st1) k
           = (if k \<in> K i then map_option (A k) (map_of (nn_pad_map st) k)
              else map_of (nn_pad_map st) k)"
    using Cons.prems(1) [of i st] Cons.prems(4) by auto
  have "\<exists>st'. for_loop is body st1 = Inr st' \<and> Pre st'
              \<and> (\<forall>k. map_of (nn_pad_map st') k
                       = (if k \<in> (\<Union>i\<in>set is. K i) then map_option (A k) (map_of (nn_pad_map st1) k)
                          else map_of (nn_pad_map st1) k))"
    using Cons.prems s1(2) by (intro Cons.IH) auto
  then obtain st' where s': "for_loop is body st1 = Inr st'" "Pre st'"
    "\<forall>k. map_of (nn_pad_map st') k
           = (if k \<in> (\<Union>i\<in>set is. K i) then map_option (A k) (map_of (nn_pad_map st1) k)
              else map_of (nn_pad_map st1) k)"
    by auto
  have disj: "\<And>j. j \<in> set is \<Longrightarrow> K i \<inter> K j = {}"
    using Cons.prems(2,3) by (metis distinct.simps(2) list.set_intros(1,2))
  have "\<forall>k. map_of (nn_pad_map st') k
           = (if k \<in> (\<Union>i\<in>set (i # is). K i) then map_option (A k) (map_of (nn_pad_map st) k)
              else map_of (nn_pad_map st) k)"
  proof
    fix k
    show "map_of (nn_pad_map st') k
           = (if k \<in> (\<Union>i\<in>set (i # is). K i) then map_option (A k) (map_of (nn_pad_map st) k)
              else map_of (nn_pad_map st) k)"
    proof (cases "k \<in> (\<Union>i\<in>set is. K i)")
      case True
      then have "k \<notin> K i" using disj by auto
      then show ?thesis using True s'(3) s1(3) by auto
    next
      case False
      then show ?thesis using s'(3) s1(3) by auto
    qed
  qed
  then show ?case
    using s1(1) s'(1,2) by auto
qed

subsection \<open>Chromatic placement\<close>

lemma mode_notes_bitset_loop_Inr:
  "- 12 \<le> rt \<Longrightarrow> \<exists>bits. mode_notes_bitset_loop ms rt i b = Inr bits"
proof (induction ms rt i b rule: mode_notes_bitset_loop.induct)
  case (1 mode_steps rt notes_bitset)
  then show ?case by auto
next
  case (2 mode_steps rt s i notes_bitset)
  then show ?case by auto
qed

lemma mode_notes_bitset_Inr:
  "0 \<le> scale_root \<Longrightarrow> \<exists>bits. mode_notes_bitset steps scale_root octave mode = Inr bits"
  unfolding mode_notes_bitset_def by (rule mode_notes_bitset_loop_Inr) simp

lemma update_pad_twice:
  "update_pad k g (update_pad k f ps) = update_pad k (\<lambda>p. g (f p)) ps"
  by (induction ps) auto

lemma has_padsD:
  "has_pads st \<Longrightarrow> 36 \<le> i \<Longrightarrow> i \<le> 99 \<Longrightarrow> \<exists>p. map_of (nn_pad_map st) i = Some p"
  by (simp add: has_pads_iff)

lemma chromatic_pad_step:
  assumes pre: "selection_color st = sc \<and> has_pads st"
    and rc: "0 \<le> row" "row \<le> 7" "0 \<le> col" "col \<le> 7"
    and rng: "0 \<le> left + col" "left + col < 128"
  shows "\<exists>st'. chromatic_pad bits scale_root left row col st = Inr st'
           \<and> (selection_color st' = sc \<and> has_pads st')
           \<and> (\<forall>k. map_of (nn_pad_map st') k
                  = (if k \<in> {36 + (row * 8) + col}
                     then map_option
                            (\<lambda>pad. set_pad_note_kind st
                                      (chromatic_kind bits scale_root (left + col))
                                      (pad\<lparr>filtered := left + col\<rparr>))
                            (map_of (nn_pad_map st) k)
                     else map_of (nn_pad_map st) k))"
proof -
  have i: "36 \<le> 36 + (row * 8) + col" "36 + (row * 8) + col \<le> 99"
    using rc by auto
  have "has_pads st" using pre by simp
  from has_padsD [OF this i]
  obtain p where p: "map_of (nn_pad_map st) (36 + (row * 8) + col) = Some p" ..
  let ?st1 = "st\<lparr>nn_pad_map :=
                   update_pad (36 + (row * 8) + col) (\<lambda>pad. pad\<lparr>filtered := left + col\<rparr>)
                     (nn_pad_map st),
                 fn_pad_map := fn_insert (left + col, 36 + (row * 8) + col) (fn_pad_map st)\<rparr>"
  let ?st' = "?st1\<lparr>nn_pad_map :=
                update_pad (36 + (row * 8) + col)
                  (set_pad_note_kind ?st1 (chromatic_kind bits scale_root (left + col)))
                  (nn_pad_map ?st1)\<rparr>"
  have k: "set_pad_note_kind ?st1 = set_pad_note_kind st"
    by (rule set_pad_note_kind_color) simp
  have r: "chromatic_pad bits scale_root left row col st = Inr ?st'"
    using p rng
    by (simp add: chromatic_pad_def Let_def bitset_test_def chromatic_kind_def)
  have m: "\<forall>k. map_of (nn_pad_map ?st') k
                  = (if k \<in> {36 + (row * 8) + col}
                     then map_option
                            (\<lambda>pad. set_pad_note_kind st
                                      (chromatic_kind bits scale_root (left + col))
                                      (pad\<lparr>filtered := left + col\<rparr>))
                            (map_of (nn_pad_map st) k)
                     else map_of (nn_pad_map st) k)"
    unfolding k by (simp add: update_pad_twice map_of_update_pad)
  have "has_pads ?st'"
    using pre unfolding has_pads_iff by (simp add: update_pad_twice map_of_update_pad)
  moreover have "selection_color ?st' = sc" using pre by simp
  ultimately show ?thesis using r m by blast
qed

lemma grid_div_mod:
  fixes row col :: int
  assumes "0 \<le> col" "col \<le> 7"
  shows "(36 + (row * 8) + col - 36) div 8 = row" "(36 + (row * 8) + col - 36) mod 8 = col"
  using assms by auto

lemma grid_index_cases:
  fixes k :: int
  assumes "36 \<le> k" "k \<le> 99"
  shows "k = 36 + (((k - 36) div 8) * 8) + (k - 36) mod 8"
    and "0 \<le> (k - 36) div 8" "(k - 36) div 8 \<le> 7" "0 \<le> (k - 36) mod 8" "(k - 36) mod 8 \<le> 7"
  using assms by auto

lemma chromatic_row:
  assumes pre: "selection_color st = selection_color st0 \<and> has_pads st"
    and row: "0 \<le> row" "row \<le> 7"
    and rng: "\<And>col. 0 \<le> col \<Longrightarrow> col \<le> 7 \<Longrightarrow>
                0 \<le> first_note + (vs * row) + col \<and> first_note + (vs * row) + col < 128"
  shows "\<exists>st'. for_loop [0..7]
                 (chromatic_pad bits scale_root (first_note + (vs * row)) row) st = Inr st'
           \<and> (selection_color st' = selection_color st0 \<and> has_pads st')
           \<and> (\<forall>k. map_of (nn_pad_map st') k
                  = (if k \<in> (\<Union>col\<in>set [0..7]. {36 + (row * 8) + col})
                     then map_option (chromatic_assign st0 bits scale_root first_note vs k)
                            (map_of (nn_pad_map st) k)
                     else map_of (nn_pad_map st) k))"
proof (rule for_loop_pads [where Pre = "\<lambda>st. selection_color st = selection_color st0 \<and> has_pads st"])
  show "distinct [0..7::int]" by simp
  show "selection_color st = selection_color st0 \<and> has_pads st" by (rule pre)
  show "{36 + row * 8 + i} \<inter> {36 + row * 8 + j} = {}" if "i \<noteq> j" for i j :: int
    using that by simp
next
  fix col and st1 :: "'a push2"
  assume c: "col \<in> set [0..7]" and p: "selection_color st1 = selection_color st0 \<and> has_pads st1"
  then have c07: "0 \<le> col" "col \<le> 7" by simp_all
  have k: "set_pad_note_kind st1 = set_pad_note_kind st0"
    using p by (intro set_pad_note_kind_color) simp
  have a: "chromatic_assign st0 bits scale_root first_note vs (36 + (row * 8) + col)
           = (\<lambda>pad. set_pad_note_kind st1
                       (chromatic_kind bits scale_root (first_note + (vs * row) + col))
                       (pad\<lparr>filtered := first_note + (vs * row) + col\<rparr>))"
    unfolding chromatic_assign_def k grid_div_mod [OF c07] by simp
  from chromatic_pad_step
         [where left = "first_note + (vs * row)" and bits = bits and scale_root = scale_root,
          OF p row c07]
    rng [OF c07]
  obtain st' where s: "chromatic_pad bits scale_root (first_note + (vs * row)) row col st1 = Inr st'"
    "selection_color st' = selection_color st0 \<and> has_pads st'"
    "\<forall>k. map_of (nn_pad_map st') k
          = (if k \<in> {36 + (row * 8) + col}
             then map_option
                    (\<lambda>pad. set_pad_note_kind st1
                              (chromatic_kind bits scale_root (first_note + (vs * row) + col))
                              (pad\<lparr>filtered := first_note + (vs * row) + col\<rparr>))
                    (map_of (nn_pad_map st1) k)
             else map_of (nn_pad_map st1) k)"
    by auto
  have "\<forall>k. map_of (nn_pad_map st') k
          = (if k \<in> {36 + (row * 8) + col}
             then map_option (chromatic_assign st0 bits scale_root first_note vs k)
                    (map_of (nn_pad_map st1) k)
             else map_of (nn_pad_map st1) k)"
    using s(3) a by auto
  then show "\<exists>st'. chromatic_pad bits scale_root (first_note + vs * row) row col st1 = Inr st'
           \<and> (selection_color st' = selection_color st0 \<and> has_pads st')
           \<and> (\<forall>k. map_of (nn_pad_map st') k
                  = (if k \<in> {36 + row * 8 + col}
                     then map_option (chromatic_assign st0 bits scale_root first_note vs k)
                            (map_of (nn_pad_map st1) k)
                     else map_of (nn_pad_map st1) k))"
    using s(1,2) by auto
qed

lemma chromatic_rows:
  assumes pre: "has_pads st"
    and rng: "\<And>row col. 0 \<le> row \<Longrightarrow> row \<le> 7 \<Longrightarrow> 0 \<le> col \<Longrightarrow> col \<le> 7 \<Longrightarrow>
                0 \<le> first_note + (vs * row) + col \<and> first_note + (vs * row) + col < 128"
  shows "\<exists>st'. for_loop [0..7]
                 (\<lambda>row. for_loop [0..7]
                           (chromatic_pad bits scale_root (first_note + (vs * row)) row)) st
               = Inr st'
           \<and> (selection_color st' = selection_color st \<and> has_pads st')
           \<and> (\<forall>k. map_of (nn_pad_map st') k
                  = (if k \<in> (\<Union>row\<in>set [0..7]. (\<Union>col\<in>set [0..7]. {36 + (row * 8) + col}))
                     then map_option (chromatic_assign st bits scale_root first_note vs k)
                            (map_of (nn_pad_map st) k)
                     else map_of (nn_pad_map st) k))"
proof (rule for_loop_pads [where Pre = "\<lambda>s. selection_color s = selection_color st \<and> has_pads s"])
  show "distinct [0..7::int]" by simp
  show "selection_color st = selection_color st \<and> has_pads st" using pre by simp
  show "(\<Union>col\<in>set [0..7]. {36 + i * 8 + col}) \<inter> (\<Union>col\<in>set [0..7]. {36 + j * 8 + col}) = {}"
    if "i \<noteq> j" for i j :: int
    using that unfolding set_upto by auto
next
  fix row and st1 :: "'a push2"
  assume r: "row \<in> set [0..7]" and p: "selection_color st1 = selection_color st \<and> has_pads st1"
  then have r07: "0 \<le> row" "row \<le> 7" by simp_all
  show "\<exists>st'. for_loop [0..7] (chromatic_pad bits scale_root (first_note + vs * row) row) st1
               = Inr st'
           \<and> (selection_color st' = selection_color st \<and> has_pads st')
           \<and> (\<forall>k. map_of (nn_pad_map st') k
                  = (if k \<in> (\<Union>col\<in>set [0..7]. {36 + row * 8 + col})
                     then map_option (chromatic_assign st bits scale_root first_note vs k)
                            (map_of (nn_pad_map st1) k)
                     else map_of (nn_pad_map st1) k))"
    using chromatic_row
            [where first_note = first_note and vs = vs and bits = bits
               and scale_root = scale_root, OF p r07]
      rng [OF r07] by simp
qed

lemma filtered_set_pad_note_kind [simp]:
  "filtered (set_pad_note_kind st kind pad) = filtered pad"
  by (cases kind) (simp_all add: set_pad_note_kind_def set_state_def set_color_def)

lemma set_pad_scale_chromatic_notes:
  assumes pads: "has_pads st"
    and cfg: "0 \<le> scale_root" "0 \<le> octave" "0 \<le> vs"
    and first: "first_note = (if origin = Fixed then 36 else scale_root + (12 * octave))"
    and top: "first_note + 7 * vs + 7 \<le> 127"
  shows "\<exists>st'. set_pad_scale_chromatic steps scale_root octave mode origin vs st = Inr st'
           \<and> (\<forall>r c. 0 \<le> r \<and> r \<le> 7 \<and> 0 \<le> c \<and> c \<le> 7 \<longrightarrow>
                 (\<exists>pad. map_of (nn_pad_map st') (36 + (r * 8) + c) = Some pad
                        \<and> filtered pad = first_note + r * vs + c))
           \<and> (\<forall>r c. 0 \<le> r \<and> r \<le> 7 \<and> 0 \<le> c \<and> c \<le> 6 \<longrightarrow>
                 (\<exists>pad pad'. map_of (nn_pad_map st') (36 + (r * 8) + c) = Some pad
                        \<and> map_of (nn_pad_map st') (36 + (r * 8) + (c + 1)) = Some pad'
                        \<and> filtered pad' = filtered pad + 1))"
proof -
  obtain bits where b: "mode_notes_bitset steps scale_root octave mode = Inr bits"
    using mode_notes_bitset_Inr [OF cfg(1), of steps octave mode] by blast
  have f0: "0 \<le> first_note" using first cfg by auto
  have rng: "0 \<le> first_note + (vs * row) + col \<and> first_note + (vs * row) + col < 128"
    if "0 \<le> row" "row \<le> 7" "0 \<le> col" "col \<le> 7" for row col
  proof -
    have "vs * row \<le> vs * 7" using that cfg(3) by (intro mult_left_mono) auto
    moreover have "0 \<le> vs * row" using that cfg(3) by simp
    ultimately show ?thesis using f0 top that by auto
  qed
  from chromatic_rows [where st = st and first_note = first_note and vs = vs
      and bits = bits and scale_root = scale_root, OF pads rng]
  obtain st' where s: "for_loop [0..7]
                 (\<lambda>row. for_loop [0..7]
                           (chromatic_pad bits scale_root (first_note + (vs * row)) row)) st
               = Inr st'"
    and m: "\<forall>k. map_of (nn_pad_map st') k
                  = (if k \<in> (\<Union>row\<in>set [0..7]. (\<Union>col\<in>set [0..7]. {36 + (row * 8) + col}))
                     then map_option (chromatic_assign st bits scale_root first_note vs k)
                            (map_of (nn_pad_map st) k)
                     else map_of (nn_pad_map st) k)"
    by auto
  have run: "set_pad_scale_chromatic steps scale_root octave mode origin vs st = Inr st'"
    using b s first by (simp add: set_pad_scale_chromatic_def)
  have cell: "\<exists>pad. map_of (nn_pad_map st') (36 + (r * 8) + c) = Some pad
                 \<and> filtered pad = first_note + r * vs + c"
    if rc: "0 \<le> r" "r \<le> 7" "0 \<le> c" "c \<le> 7" for r c
  proof -
    have i: "36 \<le> 36 + (r * 8) + c" "36 + (r * 8) + c \<le> 99" using rc by auto
    from has_padsD [OF pads i] obtain p where p: "map_of (nn_pad_map st) (36 + (r * 8) + c) = Some p" ..
    have "36 + (r * 8) + c \<in> (\<Union>row\<in>set [0..7]. (\<Union>col\<in>set [0..7]. {36 + (row * 8) + col}))"
      using rc unfolding set_upto
      by (intro UN_I [of r] UN_I [of c]) simp_all
    then have "map_of (nn_pad_map st') (36 + (r * 8) + c)
               = Some (chromatic_assign st bits scale_root first_note vs (36 + (r * 8) + c) p)"
      using m p by simp
    moreover have "filtered (chromatic_assign st bits scale_root first_note vs (36 + (r * 8) + c) p)
                   = first_note + r * vs + c"
      unfolding chromatic_assign_def using grid_div_mod [OF rc(3,4), of r]
      by (simp add: mult.commute)
    ultimately show ?thesis by simp
  qed
  have step: "\<exists>pad pad'. map_of (nn_pad_map st') (36 + (r * 8) + c) = Some pad
                        \<and> map_of (nn_pad_map st') (36 + (r * 8) + (c + 1)) = Some pad'
                        \<and> filtered pad' = filtered pad + 1"
    if rc: "0 \<le> r" "r \<le> 7" "0 \<le> c" "c \<le> 6" for r c
  proof -
    obtain pad where a: "map_of (nn_pad_map st') (36 + (r * 8) + c) = Some pad"
      "filtered pad = first_note + r * vs + c"
      using cell [of r c] rc by auto
    obtain pad' where b: "map_of (nn_pad_map st') (36 + (r * 8) + (c + 1)) = Some pad'"
      "filtered pad' = first_note + r * vs + (c + 1)"
      using cell [of r "c + 1"] rc by auto
    show ?thesis using a b by simp
  qed
  show ?thesis
    using run cell step by blast
qed

lemma example_overflow_run:
  "isl example_overflow"
  "fst (projl example_overflow) = OutOfRange"
  "map_option filtered (map_of (nn_pad_map (snd (projl example_overflow))) 47) = Some 128"
  "map_option filtered (map_of (nn_pad_map (snd (projl example_overflow))) 99) = Some (- 1)"
  by (simp_all add: example_overflow_def set_pad_scale_def set_pad_scale_chromatic_def
        mode_notes_bitset_def example_steps_def chromatic_pad_def bitset_test_def Let_def
        reset_pad_def set_state_def set_color_def set_pad_note_kind_def
        example_Push2_def new_Push2_def build_color_map_def build_maps_def
        new_Pad_def Black_def White_def upto.simps)

subsection \<open>The notes of a mode\<close>

lemma floor_root_step: "\<lfloor>of_int rt + 2 * (s :: rat)\<rfloor> = rt + \<lfloor>2 * s\<rfloor>"
  by simp

lemma mode_notes_vector_loop_prefix:
  "mode_notes_vector_loop ms rt i (pre @ acc) = pre @ mode_notes_vector_loop ms rt i acc"
proof (induction ms rt i acc arbitrary: pre rule: mode_notes_vector_loop.induct)
  case (1 mode_steps rt notes_vector)
  show ?case
    using "1.IH" [of pre] by (simp add: mode_notes_vector_loop.simps)
next
  case (2 mode_steps rt s i notes_vector)
  show ?case
    using "2.IH"(1) [of pre] "2.IH"(2) [of pre] by (simp add: mode_notes_vector_loop.simps)
qed

lemma mode_notes_vector_loop_acc:
  "mode_notes_vector_loop ms rt i acc = acc @ mode_notes_vector_loop ms rt i []"
  using mode_notes_vector_loop_prefix [of ms rt i acc "[]"] by simp

lemma mode_notes_vector_loop_Nil:
  "mode_notes_vector_loop ms rt [] [] =
     (if rt + 12 > 127 then [] else (rt + 12) # mode_notes_vector_loop ms (rt + 12) ms [])"
  using mode_notes_vector_loop_acc [of ms "rt + 12" ms "[rt + 12]"]
  by (simp add: mode_notes_vector_loop.simps)

lemma mode_notes_vector_loop_Cons:
  "mode_notes_vector_loop ms rt (s # i) [] =
     (if rt + \<lfloor>2 * s\<rfloor> > 127 then []
      else if rt + \<lfloor>2 * s\<rfloor> > 0 then (rt + \<lfloor>2 * s\<rfloor>) # mode_notes_vector_loop ms rt i []
      else mode_notes_vector_loop ms rt i [])"
  using mode_notes_vector_loop_acc [of ms rt i "[rt + \<lfloor>2 * s\<rfloor>]"]
  by (simp add: mode_notes_vector_loop.simps)

lemma valid_mode_steps_Cons:
  "valid_mode_steps (s # i) \<Longrightarrow>
     valid_mode_steps i \<and> 0 < \<lfloor>2 * s\<rfloor> \<and> \<lfloor>2 * s\<rfloor> < 12
     \<and> (\<forall>s' \<in> set i. \<lfloor>2 * s\<rfloor> < \<lfloor>2 * s'\<rfloor>)"
  by (auto simp: valid_mode_steps_def)

lemma next_note_upper: "valid_mode_steps i \<Longrightarrow> next_note rt i \<le> rt + 12"
  by (cases i) (auto simp: next_note_def valid_mode_steps_def)

lemma next_note_lower: "valid_mode_steps i \<Longrightarrow> rt < next_note rt i"
  by (cases i) (auto simp: next_note_def valid_mode_steps_def)

lemma mode_notes_vector_loop_sorted:
  fixes acc :: "int list"
  shows "valid_mode_steps ms \<Longrightarrow> valid_mode_steps i \<Longrightarrow>
         sorted_wrt (<) (mode_notes_vector_loop ms rt i [])
         \<and> (\<forall>x \<in> set (mode_notes_vector_loop ms rt i []). next_note rt i \<le> x \<and> x \<le> 127)"
proof (induction ms rt i acc rule: mode_notes_vector_loop.induct)
  case (1 mode_steps rt notes_vector)
  show ?case
  proof (cases "rt + 12 > 127")
    case True
    then show ?thesis by (simp add: mode_notes_vector_loop_Nil)
  next
    case False
    have ih: "sorted_wrt (<) (mode_notes_vector_loop mode_steps (rt + 12) mode_steps [])"
      "\<forall>x \<in> set (mode_notes_vector_loop mode_steps (rt + 12) mode_steps []).
          next_note (rt + 12) mode_steps \<le> x \<and> x \<le> 127"
      using "1.IH" False "1.prems" by auto
    have "rt + 12 < next_note (rt + 12) mode_steps"
      using "1.prems" by (intro next_note_lower)
    then show ?thesis
      using False ih by (auto simp: mode_notes_vector_loop_Nil next_note_def)
  qed
next
  case (2 mode_steps rt s i notes_vector)
  have v: "valid_mode_steps i" "0 < \<lfloor>2 * s\<rfloor>" "\<lfloor>2 * s\<rfloor> < 12"
    "\<forall>s' \<in> set i. \<lfloor>2 * s\<rfloor> < \<lfloor>2 * s'\<rfloor>"
    using valid_mode_steps_Cons [OF "2.prems"(2)] by auto
  have nn: "rt + \<lfloor>2 * s\<rfloor> < next_note rt i"
    using v by (cases i) (auto simp: next_note_def)
  show ?case
  proof (cases "rt + \<lfloor>2 * s\<rfloor> > 127")
    case True
    then show ?thesis by (simp add: mode_notes_vector_loop_Cons)
  next
    case le: False
    show ?thesis
    proof (cases "rt + \<lfloor>2 * s\<rfloor> > 0")
      case True
      have ih: "sorted_wrt (<) (mode_notes_vector_loop mode_steps rt i [])"
        "\<forall>x \<in> set (mode_notes_vector_loop mode_steps rt i []). next_note rt i \<le> x \<and> x \<le> 127"
        using "2.IH"(1) le True "2.prems"(1) v(1) by auto
      show ?thesis
        using le True ih nn by (auto simp: mode_notes_vector_loop_Cons next_note_def)
    next
      case False
      have ih: "sorted_wrt (<) (mode_notes_vector_loop mode_steps rt i [])"
        "\<forall>x \<in> set (mode_notes_vector_loop mode_steps rt i []). next_note rt i \<le> x \<and> x \<le> 127"
        using "2.IH"(2) le False "2.prems"(1) v(1) by auto
      show ?thesis
        using le False ih nn by (auto simp: mode_notes_vector_loop_Cons next_note_def)
    qed
  qed
qed

lemma mode_interval_set_add12:
  "mode_interval_set ms (rt + 12) = mode_interval_set ms rt"
  unfolding mode_interval_set_def
proof (rule image_cong)
  show "insert 0 ((\<lambda>s. \<lfloor>2 * s\<rfloor>) ` set ms) = insert 0 ((\<lambda>s. \<lfloor>2 * s\<rfloor>) ` set ms)"
    by (rule refl)
  show "(rt + 12 + k) mod 12 = (rt + k) mod 12" for k :: int
  proof -
    have "rt + 12 + k = rt + k + 12" by simp
    then show ?thesis by (simp only: mod_add_self2)
  qed
qed

lemma mode_interval_set_root: "rt mod 12 \<in> mode_interval_set ms rt"
  unfolding mode_interval_set_def by (rule image_eqI [of _ _ 0]) simp_all

lemma mode_interval_set_step:
  "s \<in> set ms \<Longrightarrow> (rt + \<lfloor>2 * s\<rfloor>) mod 12 \<in> mode_interval_set ms rt"
  unfolding mode_interval_set_def by (rule image_eqI [of _ _ "\<lfloor>2 * s\<rfloor>"]) simp_all

lemma mode_notes_vector_loop_members:
  fixes acc :: "int list"
  shows "set i \<subseteq> set ms \<Longrightarrow> - 12 \<le> rt \<Longrightarrow>
         \<forall>x \<in> set (mode_notes_vector_loop ms rt i []).
            0 \<le> x \<and> x mod 12 \<in> mode_interval_set ms rt"
proof (induction ms rt i acc rule: mode_notes_vector_loop.induct)
  case (1 mode_steps rt notes_vector)
  show ?case
  proof (cases "rt + 12 > 127")
    case True
    then show ?thesis by (simp add: mode_notes_vector_loop_Nil)
  next
    case False
    have ih: "\<forall>x \<in> set (mode_notes_vector_loop mode_steps (rt + 12) mode_steps []).
                0 \<le> x \<and> x mod 12 \<in> mode_interval_set mode_steps (rt + 12)"
      using "1.IH" False "1.prems" by auto
    have same: "mode_interval_set mode_steps (rt + 12) = mode_interval_set mode_steps rt"
      by (rule mode_interval_set_add12)
    have "(rt + 12) mod 12 \<in> mode_interval_set mode_steps rt"
      using mode_interval_set_root [of "rt + 12" mode_steps] unfolding same .
    then show ?thesis
      using False ih "1.prems"(2) unfolding same by (simp add: mode_notes_vector_loop_Nil)
  qed
next
  case (2 mode_steps rt s i notes_vector)
  have sub: "set i \<subseteq> set mode_steps" "s \<in> set mode_steps"
    using "2.prems" by auto
  have m: "(rt + \<lfloor>2 * s\<rfloor>) mod 12 \<in> mode_interval_set mode_steps rt"
    using sub(2) by (rule mode_interval_set_step)
  show ?case
  proof (cases "rt + \<lfloor>2 * s\<rfloor> > 127")
    case True
    then show ?thesis by (simp add: mode_notes_vector_loop_Cons)
  next
    case le: False
    show ?thesis
    proof (cases "rt + \<lfloor>2 * s\<rfloor> > 0")
      case True
      have ih: "\<forall>x \<in> set (mode_notes_vector_loop mode_steps rt i []).
                  0 \<le> x \<and> x mod 12 \<in> mode_interval_set mode_steps rt"
        using "2.IH"(1) le True sub(1) "2.prems"(2) by auto
      show ?thesis
        using le True ih m by (simp add: mode_notes_vector_loop_Cons)
    next
      case False
      have ih: "\<forall>x \<in> set (mode_notes_vector_loop mode_steps rt i []).
                  0 \<le> x \<and> x mod 12 \<in> mode_interval_set mode_steps rt"
        using "2.IH"(2) le False sub(1) "2.prems"(2) by auto
      show ?thesis
        using le False ih by (simp add: mode_notes_vector_loop_Cons)
    qed
  qed
qed

lemma mode_interval_set_shift:
  "mode_interval_set ms (scale_root - 12) = mode_interval_set ms scale_root"
  using mode_interval_set_add12 [of ms "scale_root - 12"] by simp

lemma mode_notes_vector_properties:
  assumes "valid_mode_steps (steps mode)" and "0 \<le> scale_root"
  shows "sorted_wrt (<) (mode_notes_vector steps scale_root octave mode)"
    and "\<forall>n \<in> set (mode_notes_vector steps scale_root octave mode).
           0 \<le> n \<and> n \<le> 127 \<and> n mod 12 \<in> mode_interval_set (steps mode) scale_root"
proof -
  show "sorted_wrt (<) (mode_notes_vector steps scale_root octave mode)"
    unfolding mode_notes_vector_def
    using mode_notes_vector_loop_sorted [OF assms(1) assms(1)] by blast
  have "\<forall>x \<in> set (mode_notes_vector steps scale_root octave mode). x \<le> 127"
    unfolding mode_notes_vector_def
    using mode_notes_vector_loop_sorted [OF assms(1) assms(1)] by blast
  moreover have "\<forall>x \<in> set (mode_notes_vector steps scale_root octave mode).
      0 \<le> x \<and> x mod 12 \<in> mode_interval_set (steps mode) scale_root"
    unfolding mode_notes_vector_def
    using mode_notes_vector_loop_members [of "steps mode" "steps mode" "scale_root - 12"] assms(2)
    by (simp add: mode_interval_set_shift)
  ultimately show "\<forall>n \<in> set (mode_notes_vector steps scale_root octave mode).
           0 \<le> n \<and> n \<le> 127 \<and> n mod 12 \<in> mode_interval_set (steps mode) scale_root"
    by blast
qed

subsection \<open>The binary search\<close>

lemma lower_bound_loop_partition:
  shows "sorted xs \<Longrightarrow> first + len \<le> length xs \<Longrightarrow> (\<forall>j<first. xs ! j < v)
         \<Longrightarrow> (\<forall>j. first + len \<le> j \<and> j < length xs \<longrightarrow> v \<le> xs ! j)
         \<Longrightarrow> lower_bound_loop xs v first len \<le> length xs
             \<and> (\<forall>j < lower_bound_loop xs v first len. xs ! j < v)
             \<and> (\<forall>j. lower_bound_loop xs v first len \<le> j \<and> j < length xs \<longrightarrow> v \<le> xs ! j)"
proof (induction xs v first len rule: lower_bound_loop.induct)
  case (1 xs v first len)
  show ?case
  proof (cases "len > 0")
    case False
    then have "lower_bound_loop xs v first len = first"
      by (subst lower_bound_loop.simps) simp
    then show ?thesis
      using "1.prems" False by simp
  next
    case pos: True
    let ?mid = "first + len div 2"
    have mid: "?mid < first + len" "?mid < length xs"
      using pos "1.prems"(2) by auto
    show ?thesis
    proof (cases "xs ! ?mid < v")
      case True
      have below: "\<forall>j < ?mid + 1. xs ! j < v"
      proof (intro allI impI)
        fix j assume "j < ?mid + 1"
        then have "j \<le> ?mid" by simp
        then have "xs ! j \<le> xs ! ?mid"
          using "1.prems"(1) mid(2) by (simp add: sorted_nth_mono)
        then show "xs ! j < v" using True by simp
      qed
      have sum: "?mid + 1 + (len - len div 2 - 1) = first + len"
        using pos by auto
      have "lower_bound_loop xs v (?mid + 1) (len - len div 2 - 1) \<le> length xs
             \<and> (\<forall>j < lower_bound_loop xs v (?mid + 1) (len - len div 2 - 1). xs ! j < v)
             \<and> (\<forall>j. lower_bound_loop xs v (?mid + 1) (len - len div 2 - 1) \<le> j \<and> j < length xs
                    \<longrightarrow> v \<le> xs ! j)"
        using "1.IH"(1) [OF pos True] "1.prems" below sum by simp
      moreover have "lower_bound_loop xs v first len
                     = lower_bound_loop xs v (?mid + 1) (len - len div 2 - 1)"
        using pos True by (subst lower_bound_loop.simps) simp
      ultimately show ?thesis by simp
    next
      case False
      have above: "\<forall>j. ?mid \<le> j \<and> j < length xs \<longrightarrow> v \<le> xs ! j"
      proof (intro allI impI)
        fix j assume j: "?mid \<le> j \<and> j < length xs"
        then have "xs ! ?mid \<le> xs ! j"
          using "1.prems"(1) by (simp add: sorted_nth_mono)
        then show "v \<le> xs ! j" using False by simp
      qed
      have "lower_bound_loop xs v first (len div 2) \<le> length xs
             \<and> (\<forall>j < lower_bound_loop xs v first (len div 2). xs ! j < v)
             \<and> (\<forall>j. lower_bound_loop xs v first (len div 2) \<le> j \<and> j < length xs
                    \<longrightarrow> v \<le> xs ! j)"
        using "1.IH"(2) [OF pos False] "1.prems" above mid by simp
      moreover have "lower_bound_loop xs v first len = lower_bound_loop xs v first (len div 2)"
        using pos False by (subst lower_bound_loop.simps) simp
      ultimately show ?thesis by simp
    qed
  qed
qed

lemma partition_drop_filter:
  fixes xs :: "int list"
  assumes "r \<le> length xs" and "\<forall>j<r. xs ! j < v"
    and "\<forall>j. r \<le> j \<and> j < length xs \<longrightarrow> v \<le> xs ! j"
  shows "drop r xs = filter (\<lambda>x. v \<le> x) xs"
proof -
  have "filter (\<lambda>x. v \<le> x) (take r xs) = []"
    using assms(1,2) by (fastforce simp: filter_empty_conv in_set_conv_nth not_le)
  moreover have "filter (\<lambda>x. v \<le> x) (drop r xs) = drop r xs"
    using assms(3) by (auto simp: filter_id_conv in_set_conv_nth)
  moreover have "filter (\<lambda>x. v \<le> x) xs
                 = filter (\<lambda>x. v \<le> x) (take r xs) @ filter (\<lambda>x. v \<le> x) (drop r xs)"
    by (metis append_take_drop_id filter_append)
  ultimately show ?thesis by simp
qed

lemma lower_bound_filter:
  assumes "sorted_wrt (<) xs"
  shows "drop (lower_bound xs v) xs = filter (\<lambda>x. v \<le> x) xs"
proof -
  have s: "sorted xs"
    using assms by (simp add: strict_sorted_iff)
  show ?thesis
    unfolding lower_bound_def
    using lower_bound_loop_partition [where xs = xs and first = 0 and len = "length xs" and v = v, OF s]
    by (intro partition_drop_filter) simp_all
qed

subsection \<open>In-key placement\<close>

lemma in_key_cols_assign:
  assumes row: "0 \<le> row" "row \<le> 7"
  shows "0 \<le> col \<Longrightarrow> ns = drop (nat col) rn
         \<Longrightarrow> selection_color st = selection_color st0 \<and> has_pads st
         \<Longrightarrow> \<exists>st'. in_key_cols scale_root row col ns st = Inr st'
               \<and> (selection_color st' = selection_color st0 \<and> has_pads st')
               \<and> (\<forall>k. map_of (nn_pad_map st') k
                      = (if \<exists>c. k = 36 + (row * 8) + c \<and> col \<le> c \<and> c < 8 \<and> nat c < length rn
                         then map_option (in_key_assign st0 scale_root rn k)
                                (map_of (nn_pad_map st) k)
                         else map_of (nn_pad_map st) k))"
proof (induction ns arbitrary: col st)
  case Nil
  then have "length rn \<le> nat col" by simp
  then have e: "(\<exists>c. k = 36 + (row * 8) + c \<and> col \<le> c \<and> c < 8 \<and> nat c < length rn) = False"
    for k by auto
  show ?case unfolding e using Nil.prems(3) by simp
next
  case (Cons n ns)
  have len: "nat col < length rn"
    using Cons.prems(2) by (metis drop_eq_Nil list.distinct(1) not_le)
  have n: "n = rn ! nat col" and ns: "ns = drop (nat (col + 1)) rn"
    using Cons.prems(1,2) len
    by (metis Cons_nth_drop_Suc list.inject, metis Cons_nth_drop_Suc list.inject Suc_nat_eq_nat_zadd1 add.commute)
  show ?case
  proof (cases "col < 8")
    case False
    then have e: "(\<exists>c. k = 36 + (row * 8) + c \<and> col \<le> c \<and> c < 8 \<and> nat c < length rn) = False"
      for k by auto
    show ?thesis unfolding e using False Cons.prems(3) by simp
  next
    case True
    let ?i = "36 + (row * 8) + col"
    have i: "36 \<le> ?i" "?i \<le> 99" using row True Cons.prems(1) by auto
    have hp: "has_pads st" using Cons.prems(3) by simp
    from has_padsD [OF hp i] obtain p where p: "map_of (nn_pad_map st) ?i = Some p" ..
    let ?f = "\<lambda>pad. set_pad_note_kind st
                       (if n smod 12 = scale_root then RootNote else InScaleNote)
                       (pad\<lparr>filtered := n\<rparr>)"
    let ?st1 = "st\<lparr>nn_pad_map := update_pad ?i ?f (nn_pad_map st),
                   fn_pad_map := fn_insert (n, ?i) (fn_pad_map st)\<rparr>"
    have run: "in_key_cols scale_root row col (n # ns) st
               = in_key_cols scale_root row (col + 1) ns ?st1"
      using True p by simp
    have pre1: "selection_color ?st1 = selection_color st0 \<and> has_pads ?st1"
      using Cons.prems(3) unfolding has_pads_iff by (simp add: map_of_update_pad)
    from Cons.IH [of "col + 1" ?st1, OF _ ns pre1] Cons.prems(1)
    obtain st' where s: "in_key_cols scale_root row (col + 1) ns ?st1 = Inr st'"
      "selection_color st' = selection_color st0 \<and> has_pads st'"
      "\<forall>k. map_of (nn_pad_map st') k
            = (if \<exists>c. k = 36 + (row * 8) + c \<and> col + 1 \<le> c \<and> c < 8 \<and> nat c < length rn
               then map_option (in_key_assign st0 scale_root rn k) (map_of (nn_pad_map ?st1) k)
               else map_of (nn_pad_map ?st1) k)"
      by auto
    have k0: "set_pad_note_kind st = set_pad_note_kind st0"
      using Cons.prems(3) by (intro set_pad_note_kind_color) simp
    have c07: "0 \<le> col" "col \<le> 7" using True Cons.prems(1) by auto
    have fa: "?f = in_key_assign st0 scale_root rn ?i"
      unfolding in_key_assign_def in_key_kind_def k0 grid_div_mod(2) [OF c07] n by simp
    have "map_of (nn_pad_map st') k
            = (if \<exists>c. k = 36 + (row * 8) + c \<and> col \<le> c \<and> c < 8 \<and> nat c < length rn
               then map_option (in_key_assign st0 scale_root rn k) (map_of (nn_pad_map st) k)
               else map_of (nn_pad_map st) k)" for k
    proof -
      note sk = s(3) [rule_format, of k]
      show ?thesis
      proof (cases "k = ?i")
        case ki: True
        have a: "\<not> (\<exists>c. k = 36 + (row * 8) + c \<and> col + 1 \<le> c \<and> c < 8 \<and> nat c < length rn)"
          using ki by auto
        have b: "\<exists>c. k = 36 + (row * 8) + c \<and> col \<le> c \<and> c < 8 \<and> nat c < length rn"
          using ki True len by auto
        have "map_of (nn_pad_map st') k = map_of (nn_pad_map ?st1) k"
          using sk a by (simp only: if_False)
        also have "\<dots> = map_option (in_key_assign st0 scale_root rn k) (map_of (nn_pad_map st) k)"
          using ki fa by (simp add: map_of_update_pad)
        finally show ?thesis
          using b by (simp only: if_True)
      next
        case ki: False
        have m1: "map_of (nn_pad_map ?st1) k = map_of (nn_pad_map st) k"
          using ki by (simp add: map_of_update_pad)
        show ?thesis
        proof (cases "\<exists>c. k = 36 + (row * 8) + c \<and> col + 1 \<le> c \<and> c < 8 \<and> nat c < length rn")
          case a: True
          then have b: "\<exists>c. k = 36 + (row * 8) + c \<and> col \<le> c \<and> c < 8 \<and> nat c < length rn"
            by auto
          have "map_of (nn_pad_map st') k
                = map_option (in_key_assign st0 scale_root rn k) (map_of (nn_pad_map ?st1) k)"
            using sk a by (simp only: if_True)
          then show ?thesis
            unfolding m1 using b by (simp only: if_True)
        next
          case a: False
          have b: "\<not> (\<exists>c. k = 36 + (row * 8) + c \<and> col \<le> c \<and> c < 8 \<and> nat c < length rn)"
          proof
            assume "\<exists>c. k = 36 + (row * 8) + c \<and> col \<le> c \<and> c < 8 \<and> nat c < length rn"
            then obtain c where c: "k = 36 + (row * 8) + c" "col \<le> c" "c < 8" "nat c < length rn"
              by blast
            then have "c \<noteq> col" using ki by auto
            then have "col + 1 \<le> c" using c(2) by simp
            then show False using a c by blast
          qed
          have "map_of (nn_pad_map st') k = map_of (nn_pad_map ?st1) k"
            using sk a by (simp only: if_False)
          then show ?thesis
            unfolding m1 using b by (simp only: if_False)
        qed
      qed
    qed
    then show ?thesis
      using run s(1,2) by simp
  qed
qed

lemma smod_12_nonneg: "0 \<le> (n :: int) \<Longrightarrow> n smod 12 = n mod 12"
  by (cases "n = 0") (simp_all add: signed_modulo_int_def)

lemma grid_index_inj:
  fixes r r' c c' :: int
  assumes "0 \<le> c" "c \<le> 7" "0 \<le> c'" "c' \<le> 7"
    and eq: "36 + (r * 8) + c = 36 + (r' * 8) + c'"
  shows "r = r' \<and> c = c'"
proof -
  have "(36 + (r * 8) + c - 36) div 8 = (36 + (r' * 8) + c' - 36) div 8"
    "(36 + (r * 8) + c - 36) mod 8 = (36 + (r' * 8) + c' - 36) mod 8"
    using eq by simp_all
  then show ?thesis
    unfolding grid_div_mod [OF assms(1,2)] grid_div_mod [OF assms(3,4)] by simp
qed

lemma in_key_rows:
  assumes pads: "has_pads st"
  shows "\<exists>st'. for_loop [0..7] (\<lambda>row st. in_key_cols scale_root row 0 (rn row) st) st = Inr st'
           \<and> (selection_color st' = selection_color st \<and> has_pads st')
           \<and> (\<forall>k. map_of (nn_pad_map st') k
                  = (if k \<in> (\<Union>row\<in>set [0..7].
                              {k. \<exists>c. k = 36 + (row * 8) + c \<and> 0 \<le> c \<and> c < 8
                                       \<and> nat c < length (rn row)})
                     then map_option (in_key_assign st scale_root (rn ((k - 36) div 8)) k)
                            (map_of (nn_pad_map st) k)
                     else map_of (nn_pad_map st) k))"
proof (rule for_loop_pads [where Pre = "\<lambda>s. selection_color s = selection_color st \<and> has_pads s"])
  show "distinct [0..7::int]" by simp
  show "selection_color st = selection_color st \<and> has_pads st" using pads by simp
  show "{k. \<exists>c. k = 36 + (i * 8) + c \<and> 0 \<le> c \<and> c < 8 \<and> nat c < length (rn i)}
        \<inter> {k. \<exists>c. k = 36 + (j * 8) + c \<and> 0 \<le> c \<and> c < 8 \<and> nat c < length (rn j)} = {}"
    if "i \<noteq> j" for i j :: int
    using that by auto
next
  fix row and st1 :: "'a push2"
  assume r: "row \<in> set [0..7]" and p: "selection_color st1 = selection_color st \<and> has_pads st1"
  then have r07: "0 \<le> row" "row \<le> 7" by simp_all
  from in_key_cols_assign [OF r07, of 0 "rn row" "rn row" st1 st scale_root] p
  obtain st' where s: "in_key_cols scale_root row 0 (rn row) st1 = Inr st'"
    "selection_color st' = selection_color st \<and> has_pads st'"
    "\<forall>k. map_of (nn_pad_map st') k
          = (if \<exists>c. k = 36 + (row * 8) + c \<and> 0 \<le> c \<and> c < 8 \<and> nat c < length (rn row)
             then map_option (in_key_assign st scale_root (rn row) k) (map_of (nn_pad_map st1) k)
             else map_of (nn_pad_map st1) k)"
    by auto
  have "map_of (nn_pad_map st') k
          = (if k \<in> {k. \<exists>c. k = 36 + (row * 8) + c \<and> 0 \<le> c \<and> c < 8 \<and> nat c < length (rn row)}
             then map_option (in_key_assign st scale_root (rn ((k - 36) div 8)) k)
                    (map_of (nn_pad_map st1) k)
             else map_of (nn_pad_map st1) k)" for k
  proof (cases "\<exists>c. k = 36 + (row * 8) + c \<and> 0 \<le> c \<and> c < 8 \<and> nat c < length (rn row)")
    case True
    then obtain c where c: "k = 36 + (row * 8) + c" "0 \<le> c" "c < 8" by blast
    then have "(k - 36) div 8 = row" by auto
    then show ?thesis using s(3) [rule_format, of k] True by simp
  next
    case False
    have "map_of (nn_pad_map st') k = map_of (nn_pad_map st1) k"
      using s(3) [rule_format, of k] False by (simp only: if_False)
    moreover have "k \<notin> {k. \<exists>c. k = 36 + (row * 8) + c \<and> 0 \<le> c \<and> c < 8
                                  \<and> nat c < length (rn row)}"
      using False by blast
    ultimately show ?thesis by (simp only: if_False)
  qed
  then show "\<exists>st'. in_key_cols scale_root row 0 (rn row) st1 = Inr st'
           \<and> (selection_color st' = selection_color st \<and> has_pads st')
           \<and> (\<forall>k. map_of (nn_pad_map st') k
                  = (if k \<in> {k. \<exists>c. k = 36 + (row * 8) + c \<and> 0 \<le> c \<and> c < 8
                                     \<and> nat c < length (rn row)}
                     then map_option (in_key_assign st scale_root (rn ((k - 36) div 8)) k)
                            (map_of (nn_pad_map st1) k)
                     else map_of (nn_pad_map st1) k))"
    using s(1,2) by blast
qed

subsection \<open>The in-scale note sequence\<close>

lemma mode_notes_vector_loop_complete:
  fixes acc :: "int list"
  shows "valid_mode_steps ms \<Longrightarrow> valid_mode_steps i \<Longrightarrow>
         \<forall>n. n \<le> 127
              \<and> ((\<exists>s \<in> set i. n = rt + \<lfloor>2 * s\<rfloor> \<and> 0 < n)
                  \<or> (\<exists>k d. 1 \<le> k \<and> (d = 0 \<or> (d \<in> (\<lambda>s. \<lfloor>2 * s\<rfloor>) ` set ms \<and> 0 < n))
                           \<and> n = rt + 12 * k + d))
              \<longrightarrow> n \<in> set (mode_notes_vector_loop ms rt i [])"
proof (induction ms rt i acc rule: mode_notes_vector_loop.induct)
  case (1 mode_steps rt notes_vector)
  have pos: "0 < d" if "d \<in> (\<lambda>s. \<lfloor>2 * s\<rfloor>) ` set mode_steps" for d
    using that "1.prems"(1) by (auto simp: valid_mode_steps_def list_all_iff)
  show ?case
  proof (intro allI impI)
    fix n
    assume a: "n \<le> 127
              \<and> ((\<exists>s \<in> set []. n = rt + \<lfloor>2 * s\<rfloor> \<and> 0 < n)
                  \<or> (\<exists>k d. 1 \<le> k \<and> (d = 0 \<or> (d \<in> (\<lambda>s. \<lfloor>2 * s\<rfloor>) ` set mode_steps \<and> 0 < n))
                           \<and> n = rt + 12 * k + d))"
    then obtain k d where kd: "1 \<le> k" "d = 0 \<or> (d \<in> (\<lambda>s. \<lfloor>2 * s\<rfloor>) ` set mode_steps \<and> 0 < n)"
      "n = rt + 12 * k + d"
      by auto
    have d0: "0 \<le> d" using kd(2) pos by force
    have le: "\<not> rt + 12 > 127" using a kd(1,3) d0 by linarith
    have ih: "\<forall>n. n \<le> 127
              \<and> ((\<exists>s \<in> set mode_steps. n = (rt + 12) + \<lfloor>2 * s\<rfloor> \<and> 0 < n)
                  \<or> (\<exists>k d. 1 \<le> k \<and> (d = 0 \<or> (d \<in> (\<lambda>s. \<lfloor>2 * s\<rfloor>) ` set mode_steps \<and> 0 < n))
                           \<and> n = (rt + 12) + 12 * k + d))
              \<longrightarrow> n \<in> set (mode_notes_vector_loop mode_steps (rt + 12) mode_steps [])"
      using "1.IH" le "1.prems" by auto
    have unf: "mode_notes_vector_loop mode_steps rt [] []
               = (rt + 12) # mode_notes_vector_loop mode_steps (rt + 12) mode_steps []"
      using le by (simp add: mode_notes_vector_loop_Nil)
    show "n \<in> set (mode_notes_vector_loop mode_steps rt [] [])"
    proof (cases "k = 1")
      case k1: True
      show ?thesis
      proof (cases "d = 0")
        case True
        then show ?thesis unfolding unf using kd(3) k1 by simp
      next
        case False
        then obtain s where s: "s \<in> set mode_steps" "d = \<lfloor>2 * s\<rfloor>" "0 < n"
          using kd(2) by auto
        have "n = (rt + 12) + \<lfloor>2 * s\<rfloor>" using kd(3) k1 s(2) by simp
        then have "n \<in> set (mode_notes_vector_loop mode_steps (rt + 12) mode_steps [])"
          using ih [rule_format, of n] a s(1,3) by blast
        then show ?thesis unfolding unf by simp
      qed
    next
      case False
      then have k2: "1 \<le> k - 1" using kd(1) by simp
      have "n = (rt + 12) + 12 * (k - 1) + d" using kd(3) by simp
      then have "n \<in> set (mode_notes_vector_loop mode_steps (rt + 12) mode_steps [])"
        using ih [rule_format, of n] a k2 kd(2) by blast
      then show ?thesis unfolding unf by simp
    qed
  qed
next
  case (2 mode_steps rt s i notes_vector)
  have v: "valid_mode_steps i" "0 < \<lfloor>2 * s\<rfloor>" "\<lfloor>2 * s\<rfloor> < 12"
    "\<forall>s' \<in> set i. \<lfloor>2 * s\<rfloor> < \<lfloor>2 * s'\<rfloor>"
    using valid_mode_steps_Cons [OF "2.prems"(2)] by auto
  have pos: "0 < d" if "d \<in> (\<lambda>s. \<lfloor>2 * s\<rfloor>) ` set mode_steps" for d
    using that "2.prems"(1) by (auto simp: valid_mode_steps_def list_all_iff)
  show ?case
  proof (intro allI impI)
    fix n
    assume a: "n \<le> 127
              \<and> ((\<exists>s' \<in> set (s # i). n = rt + \<lfloor>2 * s'\<rfloor> \<and> 0 < n)
                  \<or> (\<exists>k d. 1 \<le> k \<and> (d = 0 \<or> (d \<in> (\<lambda>s. \<lfloor>2 * s\<rfloor>) ` set mode_steps \<and> 0 < n))
                           \<and> n = rt + 12 * k + d))"
    have ge: "rt + \<lfloor>2 * s\<rfloor> \<le> n \<and> (n = rt + \<lfloor>2 * s\<rfloor> \<longrightarrow> 0 < n)"
    proof -
      from a consider
        (step) s' where "s' \<in> set (s # i)" "n = rt + \<lfloor>2 * s'\<rfloor>" "0 < n"
        | (oct) k d where "1 \<le> k" "d = 0 \<or> (d \<in> (\<lambda>s. \<lfloor>2 * s\<rfloor>) ` set mode_steps \<and> 0 < n)"
            "n = rt + 12 * k + d"
        by blast
      then show ?thesis
      proof cases
        case step
        then show ?thesis using v(4) by auto
      next
        case oct
        have "0 \<le> d" using oct(2) pos by force
        then have "rt + 12 \<le> n" using oct(1,3) by linarith
        then show ?thesis using v(3) by linarith
      qed
    qed
    have le: "\<not> rt + \<lfloor>2 * s\<rfloor> > 127" using a ge by linarith
    have rest: "n \<in> set (mode_notes_vector_loop mode_steps rt i [])"
      if ih: "\<forall>n. n \<le> 127
              \<and> ((\<exists>s \<in> set i. n = rt + \<lfloor>2 * s\<rfloor> \<and> 0 < n)
                  \<or> (\<exists>k d. 1 \<le> k \<and> (d = 0 \<or> (d \<in> (\<lambda>s. \<lfloor>2 * s\<rfloor>) ` set mode_steps \<and> 0 < n))
                           \<and> n = rt + 12 * k + d))
              \<longrightarrow> n \<in> set (mode_notes_vector_loop mode_steps rt i [])"
        and ne: "n \<noteq> rt + \<lfloor>2 * s\<rfloor>"
    proof -
      have "n \<le> 127
              \<and> ((\<exists>s \<in> set i. n = rt + \<lfloor>2 * s\<rfloor> \<and> 0 < n)
                  \<or> (\<exists>k d. 1 \<le> k \<and> (d = 0 \<or> (d \<in> (\<lambda>s. \<lfloor>2 * s\<rfloor>) ` set mode_steps \<and> 0 < n))
                           \<and> n = rt + 12 * k + d))"
        using a ne by auto
      then show ?thesis using ih by blast
    qed
    show "n \<in> set (mode_notes_vector_loop mode_steps rt (s # i) [])"
    proof (cases "rt + \<lfloor>2 * s\<rfloor> > 0")
      case True
      have ih: "\<forall>n. n \<le> 127
              \<and> ((\<exists>s \<in> set i. n = rt + \<lfloor>2 * s\<rfloor> \<and> 0 < n)
                  \<or> (\<exists>k d. 1 \<le> k \<and> (d = 0 \<or> (d \<in> (\<lambda>s. \<lfloor>2 * s\<rfloor>) ` set mode_steps \<and> 0 < n))
                           \<and> n = rt + 12 * k + d))
              \<longrightarrow> n \<in> set (mode_notes_vector_loop mode_steps rt i [])"
        using "2.IH"(1) le True "2.prems"(1) v(1) by auto
      have unf: "mode_notes_vector_loop mode_steps rt (s # i) []
                 = (rt + \<lfloor>2 * s\<rfloor>) # mode_notes_vector_loop mode_steps rt i []"
        using le True by (simp add: mode_notes_vector_loop_Cons)
      show ?thesis
        unfolding unf using rest [OF ih] by (cases "n = rt + \<lfloor>2 * s\<rfloor>") simp_all
    next
      case False
      have ih: "\<forall>n. n \<le> 127
              \<and> ((\<exists>s \<in> set i. n = rt + \<lfloor>2 * s\<rfloor> \<and> 0 < n)
                  \<or> (\<exists>k d. 1 \<le> k \<and> (d = 0 \<or> (d \<in> (\<lambda>s. \<lfloor>2 * s\<rfloor>) ` set mode_steps \<and> 0 < n))
                           \<and> n = rt + 12 * k + d))
              \<longrightarrow> n \<in> set (mode_notes_vector_loop mode_steps rt i [])"
        using "2.IH"(2) le False "2.prems"(1) v(1) by auto
      have unf: "mode_notes_vector_loop mode_steps rt (s # i) []
                 = mode_notes_vector_loop mode_steps rt i []"
        using le False by (simp add: mode_notes_vector_loop_Cons)
      have "n \<noteq> rt + \<lfloor>2 * s\<rfloor>" using ge False by auto
      then show ?thesis unfolding unf using rest [OF ih] by simp
    qed
  qed
qed

lemma mode_notes_vector_loop_positive:
  fixes acc :: "int list"
  shows "- 12 \<le> rt \<Longrightarrow>
         \<forall>x \<in> set (mode_notes_vector_loop ms rt i []). 0 < x \<or> rt = - 12"
proof (induction ms rt i acc rule: mode_notes_vector_loop.induct)
  case (1 mode_steps rt notes_vector)
  show ?case
  proof (cases "rt + 12 > 127")
    case True
    then show ?thesis by (simp add: mode_notes_vector_loop_Nil)
  next
    case False
    have ih: "\<forall>x \<in> set (mode_notes_vector_loop mode_steps (rt + 12) mode_steps []).
                0 < x \<or> rt + 12 = - 12"
      using "1.IH" False "1.prems" by auto
    show ?thesis
      using False ih "1.prems" by (auto simp: mode_notes_vector_loop_Nil)
  qed
next
  case (2 mode_steps rt s i notes_vector)
  show ?case
  proof (cases "rt + \<lfloor>2 * s\<rfloor> > 127")
    case True
    then show ?thesis by (simp add: mode_notes_vector_loop_Cons)
  next
    case le: False
    show ?thesis
    proof (cases "rt + \<lfloor>2 * s\<rfloor> > 0")
      case True
      have ih: "\<forall>x \<in> set (mode_notes_vector_loop mode_steps rt i []). 0 < x \<or> rt = - 12"
        using "2.IH"(1) le True "2.prems" by auto
      show ?thesis
        using le True ih by (simp add: mode_notes_vector_loop_Cons)
    next
      case False
      have ih: "\<forall>x \<in> set (mode_notes_vector_loop mode_steps rt i []). 0 < x \<or> rt = - 12"
        using "2.IH"(2) le False "2.prems" by auto
      show ?thesis
        using le False ih by (simp add: mode_notes_vector_loop_Cons)
    qed
  qed
qed

lemma in_scale_decompose:
  assumes "n mod 12 \<in> mode_interval_set ms scale_root"
  shows "\<exists>d j. (d = 0 \<or> d \<in> (\<lambda>s. \<lfloor>2 * s\<rfloor>) ` set ms) \<and> n = scale_root + d + 12 * j"
proof -
  from assms obtain d where d0: "d \<in> insert 0 ((\<lambda>s. \<lfloor>2 * s\<rfloor>) ` set ms)"
    and eq: "n mod 12 = (scale_root + d) mod 12"
    unfolding mode_interval_set_def by (rule imageE)
  have d: "d = 0 \<or> d \<in> (\<lambda>s. \<lfloor>2 * s\<rfloor>) ` set ms"
    using d0 by simp
  from eq have "12 dvd (n - (scale_root + d))"
    by (simp add: mod_eq_dvd_iff)
  then obtain j where "n - (scale_root + d) = 12 * j" ..
  then have "n = scale_root + d + 12 * j" by simp
  then show ?thesis using d by blast
qed

lemma mode_notes_vector_complete:
  assumes valid: "valid_mode_steps (steps mode)"
    and root: "0 \<le> scale_root" "scale_root \<le> 11"
    and n: "0 \<le> n" "n \<le> 127" "0 < n \<or> scale_root = 0"
    and scale: "n mod 12 \<in> mode_interval_set (steps mode) scale_root"
  shows "n \<in> set (mode_notes_vector steps scale_root octave mode)"
proof -
  from in_scale_decompose [OF scale]
  obtain d j where d: "d = 0 \<or> d \<in> (\<lambda>s. \<lfloor>2 * s\<rfloor>) ` set (steps mode)"
    and eq: "n = scale_root + d + 12 * j"
    by blast
  have range: "0 < d \<and> d < 12" if "d \<in> (\<lambda>s. \<lfloor>2 * s\<rfloor>) ` set (steps mode)"
    using that valid by (auto simp: valid_mode_steps_def list_all_iff)
  have "n \<le> 127
        \<and> ((\<exists>s \<in> set (steps mode). n = (scale_root - 12) + \<lfloor>2 * s\<rfloor> \<and> 0 < n)
            \<or> (\<exists>k d. 1 \<le> k \<and> (d = 0 \<or> (d \<in> (\<lambda>s. \<lfloor>2 * s\<rfloor>) ` set (steps mode) \<and> 0 < n))
                     \<and> n = (scale_root - 12) + 12 * k + d))"
  proof (cases "d = 0")
    case True
    have "0 \<le> j" using eq True n(1) root(2) by linarith
    then have "1 \<le> j + 1" "n = (scale_root - 12) + 12 * (j + 1) + 0"
      using eq True by simp_all
    then show ?thesis using n(2) by blast
  next
    case False
    then have dm: "d \<in> (\<lambda>s. \<lfloor>2 * s\<rfloor>) ` set (steps mode)" using d by simp
    then have dr: "0 < d" "d < 12" using range by simp_all
    have npos: "0 < n"
    proof (rule ccontr)
      assume "\<not> 0 < n"
      then have "n = 0" "scale_root = 0" using n(1,3) by simp_all
      then have dj: "d = 12 * (- j)" using eq by simp
      then have "0 < - j" using dr(1) by simp
      then have "12 \<le> 12 * (- j)" by linarith
      then show False using dr(2) dj by simp
    qed
    have j1: "- 1 \<le> j" using eq npos root(2) dr(2) by linarith
    show ?thesis
    proof (cases "j = - 1")
      case True
      obtain s where s: "s \<in> set (steps mode)" "d = \<lfloor>2 * s\<rfloor>" using dm by auto
      have "n = (scale_root - 12) + \<lfloor>2 * s\<rfloor>" using eq True s(2) by simp
      then show ?thesis using n(2) npos s(1) by blast
    next
      case False
      then have "1 \<le> j + 1" "n = (scale_root - 12) + 12 * (j + 1) + d"
        using j1 eq by simp_all
      then show ?thesis using n(2) npos dm by blast
    qed
  qed
  then show ?thesis
    unfolding mode_notes_vector_def
    using mode_notes_vector_loop_complete [OF valid valid, of "scale_root - 12"] by blast
qed

lemma mode_notes_vector_positive:
  assumes "0 \<le> scale_root"
  shows "\<forall>n \<in> set (mode_notes_vector steps scale_root octave mode). 0 < n \<or> scale_root = 0"
  unfolding mode_notes_vector_def
  using mode_notes_vector_loop_positive [of "scale_root - 12" "steps mode" "steps mode"] assms
  by auto

lemma in_scale_notes_sorted: "sorted_wrt (<) (in_scale_notes ms scale_root)"
  unfolding in_scale_notes_def by (intro sorted_wrt_filter) (simp add: strict_sorted_iff)

lemma set_in_scale_notes:
  "set (in_scale_notes ms scale_root)
   = {n. 0 \<le> n \<and> n \<le> 127 \<and> n mod 12 \<in> mode_interval_set ms scale_root}"
  unfolding in_scale_notes_def by auto

lemma mode_notes_vector_in_scale_notes:
  assumes valid: "valid_mode_steps (steps mode)"
    and root: "0 \<le> scale_root" "scale_root \<le> 11"
  shows "mode_notes_vector steps scale_root octave mode
         = filter (\<lambda>n. 0 < n \<or> scale_root = 0) (in_scale_notes (steps mode) scale_root)"
proof (rule sorted_distinct_set_unique)
  show "sorted (mode_notes_vector steps scale_root octave mode)"
    "distinct (mode_notes_vector steps scale_root octave mode)"
    using mode_notes_vector_properties(1) [where steps = steps and mode = mode, OF valid root(1), of octave]
    by (simp_all add: strict_sorted_iff)
  show "sorted (filter (\<lambda>n. 0 < n \<or> scale_root = 0) (in_scale_notes (steps mode) scale_root))"
    "distinct (filter (\<lambda>n. 0 < n \<or> scale_root = 0) (in_scale_notes (steps mode) scale_root))"
    using in_scale_notes_sorted [of "steps mode" scale_root]
    by (simp_all add: strict_sorted_iff sorted_wrt_filter)
  show "set (mode_notes_vector steps scale_root octave mode)
        = set (filter (\<lambda>n. 0 < n \<or> scale_root = 0) (in_scale_notes (steps mode) scale_root))"
  proof (intro set_eqI iffI)
    fix n assume "n \<in> set (mode_notes_vector steps scale_root octave mode)"
    then show "n \<in> set (filter (\<lambda>n. 0 < n \<or> scale_root = 0)
                          (in_scale_notes (steps mode) scale_root))"
      using mode_notes_vector_properties(2) [where steps = steps and mode = mode, OF valid root(1), of octave]
        mode_notes_vector_positive [OF root(1), of steps octave mode]
      by (auto simp: set_in_scale_notes)
  next
    fix n assume "n \<in> set (filter (\<lambda>n. 0 < n \<or> scale_root = 0)
                            (in_scale_notes (steps mode) scale_root))"
    then have "0 \<le> n" "n \<le> 127" "0 < n \<or> scale_root = 0"
      "n mod 12 \<in> mode_interval_set (steps mode) scale_root"
      by (auto simp: set_in_scale_notes)
    then show "n \<in> set (mode_notes_vector steps scale_root octave mode)"
      by (intro mode_notes_vector_complete [where steps = steps and mode = mode, OF valid root])
  qed
qed

lemma dropWhile_filter_sorted:
  fixes xs :: "int list"
  shows "sorted xs \<Longrightarrow> dropWhile (\<lambda>x. x < v) xs = filter (\<lambda>x. v \<le> x) xs"
proof (induction xs)
  case Nil
  show ?case by simp
next
  case (Cons x xs)
  show ?case
  proof (cases "x < v")
    case True
    then show ?thesis using Cons by simp
  next
    case False
    then have "\<forall>y \<in> set xs. v \<le> y" using Cons.prems by auto
    then have "filter (\<lambda>x. v \<le> x) xs = xs" by (simp add: filter_id_conv)
    then show ?thesis using False by simp
  qed
qed

text \<open>The notes from the ideal leftmost note on.\<close>

lemma lower_bound_in_scale_notes:
  assumes valid: "valid_mode_steps (steps mode)"
    and root: "0 \<le> scale_root" "scale_root \<le> 11"
    and v: "scale_root \<le> v"
  shows "drop (lower_bound (mode_notes_vector steps scale_root octave mode) v)
              (mode_notes_vector steps scale_root octave mode)
         = dropWhile (\<lambda>n. n < v) (in_scale_notes (steps mode) scale_root)"
proof -
  have s: "sorted (in_scale_notes (steps mode) scale_root)"
    using in_scale_notes_sorted [of "steps mode" scale_root] by (simp add: strict_sorted_iff)
  have "drop (lower_bound (mode_notes_vector steps scale_root octave mode) v)
              (mode_notes_vector steps scale_root octave mode)
        = filter (\<lambda>x. v \<le> x) (mode_notes_vector steps scale_root octave mode)"
    using mode_notes_vector_properties(1) [where steps = steps and mode = mode, OF valid root(1), of octave]
    by (rule lower_bound_filter)
  also have "\<dots> = filter (\<lambda>x. v \<le> x) (in_scale_notes (steps mode) scale_root)"
    unfolding mode_notes_vector_in_scale_notes [where steps = steps and mode = mode, OF valid root] filter_filter
    using v root(1) by (intro filter_cong) auto
  also have "\<dots> = dropWhile (\<lambda>n. n < v) (in_scale_notes (steps mode) scale_root)"
    using s by (simp add: dropWhile_filter_sorted)
  finally show ?thesis .
qed

lemma in_key_assign_fields:
  assumes "0 \<le> n"
  shows "filtered (set_pad_note_kind st (in_key_kind scale_root n) (pad0\<lparr>filtered := n\<rparr>)) = n"
    and "color_index (set_pad_note_kind st (in_key_kind scale_root n) (pad0\<lparr>filtered := n\<rparr>))
         = (if n mod 12 = scale_root then selection_color st else White)"
    and "perma_color (set_pad_note_kind st (in_key_kind scale_root n) (pad0\<lparr>filtered := n\<rparr>))
         = (if n mod 12 = scale_root then uint (selection_color st) else uint White)"
    and "do_when_pressed (set_pad_note_kind st (in_key_kind scale_root n) (pad0\<lparr>filtered := n\<rparr>))
         = FlashOff"
    and "led_state (set_pad_note_kind st (in_key_kind scale_root n) (pad0\<lparr>filtered := n\<rparr>))
         = NoTransition"
  using smod_12_nonneg [OF assms]
  by (simp_all add: set_pad_note_kind_def in_key_kind_def set_color_def set_state_def)

lemma in_key_kind_mod:
  "0 \<le> n \<Longrightarrow>
     in_key_kind scale_root n = (if n mod 12 = scale_root then RootNote else InScaleNote)"
  by (simp add: in_key_kind_def smod_12_nonneg)

text \<open>C3: in in-key placement, for a root from 0 to 11, an octave and an ideal vertical
  interval that are not negative and a mode whose doubled steps increase strictly between 0
  and 12, the vector of notes is the sorted in-scale note sequence (without the note 0 unless
  the root is 0, which no row can start below). Row \<open>r\<close> starts at the first in-scale note
  that is at least the ideal leftmost note \<open>ideal_first_note + ideal_vertical_semitones * r\<close>
  and its columns get the in-scale notes that follow, one after the other. A pad that receives
  a note has a note between the ideal leftmost note and 127 whose pitch class is in the
  interval set of the mode rooted at the root; it is set up as RootNote exactly when the note
  modulo 12 is the root and as InScaleNote otherwise, so it shows the selection colour or
  white and never flashes on; a pad for which the sequence has no note left stays as it
  was.\<close>

theorem in_key_placement:
  assumes pads: "has_pads st"
    and cfg: "0 \<le> scale_root" "scale_root \<le> 11" "0 \<le> octave" "0 \<le> ivs"
    and valid: "valid_mode_steps (steps mode)"
    and first: "ideal_first_note = (if origin = Fixed then 36 else scale_root + (12 * octave))"
  shows "mode_notes_vector steps scale_root octave mode
           = filter (\<lambda>n. 0 < n \<or> scale_root = 0) (in_scale_notes (steps mode) scale_root)
    \<and> (\<exists>st'. set_pad_scale_in_key steps scale_root octave mode origin ivs st = Inr st'
          \<and> (\<forall>r c. 0 \<le> r \<and> r \<le> 7 \<and> 0 \<le> c \<and> c \<le> 7 \<longrightarrow>
                (\<exists>pad0 pad.
                    map_of (nn_pad_map st) (36 + (r * 8) + c) = Some pad0
                  \<and> map_of (nn_pad_map st') (36 + (r * 8) + c) = Some pad
                  \<and> (if nat c < length (in_key_row (steps mode) scale_root
                                         (ideal_first_note + ivs * r))
                     then filtered pad
                            = in_key_row (steps mode) scale_root (ideal_first_note + ivs * r) ! nat c
                          \<and> ideal_first_note + ivs * r \<le> filtered pad \<and> filtered pad \<le> 127
                          \<and> filtered pad mod 12 \<in> mode_interval_set (steps mode) scale_root
                          \<and> pad = set_pad_note_kind st
                                    (if filtered pad mod 12 = scale_root
                                     then RootNote else InScaleNote)
                                    (pad0\<lparr>filtered := filtered pad\<rparr>)
                          \<and> color_index pad
                              = (if filtered pad mod 12 = scale_root
                                 then selection_color st else White)
                          \<and> perma_color pad = uint (color_index pad)
                          \<and> do_when_pressed pad = FlashOff
                          \<and> led_state pad = NoTransition
                     else pad = pad0))))"
proof -
  define ns where "ns = mode_notes_vector steps scale_root octave mode"
  have vec: "ns = filter (\<lambda>n. 0 < n \<or> scale_root = 0) (in_scale_notes (steps mode) scale_root)"
    unfolding ns_def
    by (rule mode_notes_vector_in_scale_notes [where steps = steps and mode = mode,
          OF valid cfg(1,2)])
  have mem: "\<forall>n \<in> set ns. 0 \<le> n \<and> n \<le> 127 \<and> n mod 12 \<in> mode_interval_set (steps mode) scale_root"
    unfolding ns_def
    by (rule mode_notes_vector_properties(2) [where steps = steps and mode = mode,
          OF valid cfg(1)])
  define rn where "rn = (\<lambda>row. drop (lower_bound ns (ideal_first_note + (ivs * row))) ns)"
  have ideal: "scale_root \<le> ideal_first_note + ivs * r" if "0 \<le> r" for r
  proof -
    have "0 \<le> ivs * r" using cfg(4) that by simp
    moreover have "scale_root \<le> ideal_first_note" using first cfg(1,2,3) by auto
    ultimately show ?thesis by linarith
  qed
  have rn_eq: "rn r = dropWhile (\<lambda>n. n < ideal_first_note + ivs * r)
                        (in_scale_notes (steps mode) scale_root)" if "0 \<le> r" for r
    unfolding rn_def ns_def
    using lower_bound_in_scale_notes [where steps = steps and mode = mode,
            OF valid cfg(1,2) ideal [OF that], of octave]
    by (simp add: mult.commute)
  have rn_sub: "set (rn r) \<subseteq> set ns" for r
    unfolding rn_def by (rule set_drop_subset)
  from in_key_rows [OF pads, of scale_root rn]
  obtain st' where s: "for_loop [0..7] (\<lambda>row st. in_key_cols scale_root row 0 (rn row) st) st = Inr st'"
    and m: "\<forall>k. map_of (nn_pad_map st') k
                  = (if k \<in> (\<Union>row\<in>set [0..7].
                              {k. \<exists>c. k = 36 + (row * 8) + c \<and> 0 \<le> c \<and> c < 8
                                       \<and> nat c < length (rn row)})
                     then map_option (in_key_assign st scale_root (rn ((k - 36) div 8)) k)
                            (map_of (nn_pad_map st) k)
                     else map_of (nn_pad_map st) k)"
    by auto
  have run: "set_pad_scale_in_key steps scale_root octave mode origin ivs st = Inr st'"
    using s unfolding set_pad_scale_in_key_def Let_def ns_def [symmetric] first [symmetric] rn_def .
  have cell: "\<exists>pad0 pad.
                map_of (nn_pad_map st) (36 + (r * 8) + c) = Some pad0
              \<and> map_of (nn_pad_map st') (36 + (r * 8) + c) = Some pad
              \<and> (if nat c < length (in_key_row (steps mode) scale_root (ideal_first_note + ivs * r))
                 then filtered pad
                        = in_key_row (steps mode) scale_root (ideal_first_note + ivs * r) ! nat c
                      \<and> ideal_first_note + ivs * r \<le> filtered pad \<and> filtered pad \<le> 127
                      \<and> filtered pad mod 12 \<in> mode_interval_set (steps mode) scale_root
                      \<and> pad = set_pad_note_kind st
                                (if filtered pad mod 12 = scale_root then RootNote else InScaleNote)
                                (pad0\<lparr>filtered := filtered pad\<rparr>)
                      \<and> color_index pad
                          = (if filtered pad mod 12 = scale_root then selection_color st else White)
                      \<and> perma_color pad = uint (color_index pad)
                      \<and> do_when_pressed pad = FlashOff
                      \<and> led_state pad = NoTransition
                 else pad = pad0)"
    if rc: "0 \<le> r" "r \<le> 7" "0 \<le> c" "c \<le> 7" for r c
  proof -
    let ?k = "36 + (r * 8) + c"
    have k: "36 \<le> ?k" "?k \<le> 99" using rc by auto
    from has_padsD [OF pads k] obtain pad0 where p0: "map_of (nn_pad_map st) ?k = Some pad0" ..
    have c8: "nat c < 8" using rc by simp
    have row: "in_key_row (steps mode) scale_root (ideal_first_note + ivs * r) = take 8 (rn r)"
      unfolding in_key_row_def rn_eq [OF rc(1)] ..
    have len: "(nat c < length (in_key_row (steps mode) scale_root (ideal_first_note + ivs * r)))
               = (nat c < length (rn r))"
      unfolding row using c8 by simp
    show ?thesis
    proof (cases "nat c < length (rn r)")
      case True
      have nth: "in_key_row (steps mode) scale_root (ideal_first_note + ivs * r) ! nat c
                 = rn r ! nat c"
        unfolding row using c8 by simp
      have "?k \<in> (\<Union>row\<in>set [0..7].
                              {k. \<exists>c. k = 36 + (row * 8) + c \<and> 0 \<le> c \<and> c < 8
                                       \<and> nat c < length (rn row)})"
        using rc True unfolding set_upto by (intro UN_I [of r]) auto
      then have a: "map_of (nn_pad_map st') ?k
                    = Some (in_key_assign st scale_root (rn ((?k - 36) div 8)) ?k pad0)"
        using m p0 by simp
      have inns: "rn r ! nat c \<in> set ns"
        using True rn_sub [of r] by (metis nth_mem subsetD)
      then have n: "0 \<le> rn r ! nat c" "rn r ! nat c \<le> 127"
        "(rn r ! nat c) mod 12 \<in> mode_interval_set (steps mode) scale_root"
        using mem by blast+
      have "rn r ! nat c \<in> set (dropWhile (\<lambda>n. n < ideal_first_note + ivs * r)
                                   (in_scale_notes (steps mode) scale_root))"
        using True unfolding rn_eq [OF rc(1)] by simp
      then have "rn r ! nat c \<in> set (filter (\<lambda>x. ideal_first_note + ivs * r \<le> x)
                                        (in_scale_notes (steps mode) scale_root))"
        using in_scale_notes_sorted [of "steps mode" scale_root]
        by (simp add: dropWhile_filter_sorted strict_sorted_iff)
      then have lo: "ideal_first_note + ivs * r \<le> rn r ! nat c" by simp
      have asg: "in_key_assign st scale_root (rn ((?k - 36) div 8)) ?k pad0
                 = set_pad_note_kind st (in_key_kind scale_root (rn r ! nat c))
                     (pad0\<lparr>filtered := rn r ! nat c\<rparr>)"
        unfolding in_key_assign_def grid_div_mod [OF rc(3,4)] ..
      note f = in_key_assign_fields [where st = st and scale_root = scale_root and ?pad0.0 = pad0, OF n(1)]
        in_key_kind_mod [OF n(1), of scale_root]
      show ?thesis
        apply (rule exI [of _ pad0])
        apply (rule exI [of _ "set_pad_note_kind st (in_key_kind scale_root (rn r ! nat c))
                     (pad0\<lparr>filtered := rn r ! nat c\<rparr>)"])
        unfolding len nth a asg
        using True p0 n lo f by simp
    next
      case False
      have "?k \<notin> (\<Union>row\<in>set [0..7].
                              {k. \<exists>c. k = 36 + (row * 8) + c \<and> 0 \<le> c \<and> c < 8
                                       \<and> nat c < length (rn row)})"
      proof
        assume "?k \<in> (\<Union>row\<in>set [0..7].
                              {k. \<exists>c. k = 36 + (row * 8) + c \<and> 0 \<le> c \<and> c < 8
                                       \<and> nat c < length (rn row)})"
        then obtain row c' where x: "?k = 36 + (row * 8) + c'" "0 \<le> c'" "c' < 8"
          "nat c' < length (rn row)"
          by auto
        then have "r = row \<and> c = c'"
          using rc by (intro grid_index_inj) simp_all
        then show False using x(4) False by simp
      qed
      then have "map_of (nn_pad_map st') ?k = map_of (nn_pad_map st) ?k"
        using m [rule_format, of ?k] by (simp only: if_False)
      then show ?thesis
        unfolding len using False p0 by simp
    qed
  qed
  show ?thesis
    using vec run cell unfolding ns_def by blast
qed

subsection \<open>Recomputing the grid\<close>

lemma map_of_map_snd:
  "map_of (map (\<lambda>p. (fst p, f (snd p))) ps) k = map_option f (map_of ps k)"
  by (induction ps) auto

lemma nn_pad_map_writes:
  "nn_pad_map (foldl (\<lambda>st p. write_port (state_msg (snd p)) st) st ps) = nn_pad_map st"
  by (induction ps arbitrary: st) (simp_all add: write_port_def)

lemma nn_pad_map_store_scale:
  "nn_pad_map (store_scale scale_root octave mode origin row_interval inkey st) = nn_pad_map st"
  by (simp add: store_scale_def Let_def)

lemma row_interval_semitones_chromatic_range:
  "0 \<le> row_interval_semitones row_interval False \<and> row_interval_semitones row_interval False \<le> 8"
  by (cases row_interval) simp_all

text \<open>C2 (amended): in chromatic placement, for a root and an octave that are not negative,
  whenever the highest note \<open>first_note + 7 * vertical_semitones + 7\<close> of the grid is at most
  127, which is always so when the origin is Fixed, recomputing the grid succeeds and the pad
  at row \<open>r\<close> and column \<open>c\<close> gets the note \<open>first_note + r * vertical_semitones + c\<close>, where
  \<open>first_note\<close> is 36 for the origin Fixed and \<open>root + 12 * octave\<close> for Rooted; so the note of
  column \<open>c + 1\<close> is the note of column \<open>c\<close> plus 1.\<close>

theorem chromatic_placement:
  assumes pads: "has_pads st"
    and cfg: "0 \<le> scale_root" "0 \<le> octave"
    and first: "first_note = (if origin = Fixed then 36 else scale_root + (12 * octave))"
    and vs: "vs = row_interval_semitones row_interval False"
    and top: "origin = Fixed \<or> scale_root + (12 * octave) + 7 * vs + 7 \<le> 127"
  shows "\<exists>st'. set_pad_scale steps scale_root octave mode origin row_interval False st = Inr st'
           \<and> (\<forall>r c. 0 \<le> r \<and> r \<le> 7 \<and> 0 \<le> c \<and> c \<le> 7 \<longrightarrow>
                 (\<exists>pad. map_of (nn_pad_map st') (36 + (r * 8) + c) = Some pad
                        \<and> filtered pad = first_note + r * vs + c))
           \<and> (\<forall>r c. 0 \<le> r \<and> r \<le> 7 \<and> 0 \<le> c \<and> c \<le> 6 \<longrightarrow>
                 (\<exists>pad pad'. map_of (nn_pad_map st') (36 + (r * 8) + c) = Some pad
                        \<and> map_of (nn_pad_map st') (36 + (r * 8) + (c + 1)) = Some pad'
                        \<and> filtered pad' = filtered pad + 1))"
proof -
  let ?st1 = "st\<lparr>fn_pad_map := [],
                 nn_pad_map := map (\<lambda>p. (fst p, reset_pad (snd p))) (nn_pad_map st)\<rparr>"
  have p1: "has_pads ?st1"
    using pads unfolding has_pads_iff by (simp add: map_of_map_snd)
  have v: "0 \<le> vs" "vs \<le> 8"
    using row_interval_semitones_chromatic_range [of row_interval] vs by simp_all
  have t: "first_note + 7 * vs + 7 \<le> 127"
    using top first v by auto
  from set_pad_scale_chromatic_notes [OF p1 cfg v(1) first t, of steps mode]
  obtain st2 where s: "set_pad_scale_chromatic steps scale_root octave mode origin vs ?st1 = Inr st2"
    and a: "\<forall>r c. 0 \<le> r \<and> r \<le> 7 \<and> 0 \<le> c \<and> c \<le> 7 \<longrightarrow>
                 (\<exists>pad. map_of (nn_pad_map st2) (36 + (r * 8) + c) = Some pad
                        \<and> filtered pad = first_note + r * vs + c)"
    and b: "\<forall>r c. 0 \<le> r \<and> r \<le> 7 \<and> 0 \<le> c \<and> c \<le> 6 \<longrightarrow>
                 (\<exists>pad pad'. map_of (nn_pad_map st2) (36 + (r * 8) + c) = Some pad
                        \<and> map_of (nn_pad_map st2) (36 + (r * 8) + (c + 1)) = Some pad'
                        \<and> filtered pad' = filtered pad + 1)"
    by blast
  let ?st' = "store_scale scale_root octave mode origin row_interval False
                (foldl (\<lambda>st p. write_port (state_msg (snd p)) st) st2 (nn_pad_map st2))"
  have "set_pad_scale steps scale_root octave mode origin row_interval False st = Inr ?st'"
    using s vs by (simp add: set_pad_scale_def Let_def)
  moreover have "nn_pad_map ?st' = nn_pad_map st2"
    by (simp add: nn_pad_map_store_scale nn_pad_map_writes)
  ultimately show ?thesis
    using a b by (intro exI [of _ ?st']) simp
qed

lemma example_Push2_has_pads: "has_pads example_Push2"
  by (simp add: has_pads_def example_Push2_def new_Push2_def build_color_map_def build_maps_def
        upto.simps)

theorem chromatic_placement_witness:
  "\<exists>st'. set_pad_scale example_steps 0 3 0 Fixed Fourth False example_Push2 = Inr st'
         \<and> (\<exists>pad. map_of (nn_pad_map st') (36 + (1 * 8) + 2) = Some pad
                  \<and> filtered pad = 36 + 1 * 5 + 2)
         \<and> (\<exists>pad pad'. map_of (nn_pad_map st') (36 + (1 * 8) + 2) = Some pad
                  \<and> map_of (nn_pad_map st') (36 + (1 * 8) + (2 + 1)) = Some pad'
                  \<and> filtered pad' = filtered pad + 1)"
proof -
  from chromatic_placement
    [where st = example_Push2 and scale_root = 0 and octave = 3 and origin = Fixed
       and first_note = 36 and vs = 5 and row_interval = Fourth and steps = example_steps
       and mode = 0, OF example_Push2_has_pads]
  obtain st' where s: "set_pad_scale example_steps 0 3 0 Fixed Fourth False example_Push2 = Inr st'"
    and a: "\<forall>r c. 0 \<le> r \<and> r \<le> 7 \<and> 0 \<le> c \<and> c \<le> 7 \<longrightarrow>
                 (\<exists>pad. map_of (nn_pad_map st') (36 + (r * 8) + c) = Some pad
                        \<and> filtered pad = 36 + r * 5 + c)"
    and b: "\<forall>r c. 0 \<le> r \<and> r \<le> 7 \<and> 0 \<le> c \<and> c \<le> 6 \<longrightarrow>
                 (\<exists>pad pad'. map_of (nn_pad_map st') (36 + (r * 8) + c) = Some pad
                        \<and> map_of (nn_pad_map st') (36 + (r * 8) + (c + 1)) = Some pad'
                        \<and> filtered pad' = filtered pad + 1)"
    by auto
  show ?thesis
    using s a [rule_format, of 1 2] b [rule_format, of 1 2] by (intro exI [of _ st']) simp
qed

text \<open>C2 (as stated): for every row and column the pad gets
  \<open>first_note + r * vertical_semitones + c\<close>. From root 0 in octave 10 with the origin Rooted
  and rows a fourth apart, the call ends in std::out_of_range at the first note above 127 and
  the pad of row 7 and column 7 keeps the unmapped note -1, not 162.\<close>

theorem chromatic_placement_overflow_counterexample:
  "isl (set_pad_scale example_steps 0 10 0 Rooted Fourth False example_Push2)
   \<and> map_option filtered
       (map_of (nn_pad_map (snd (projl
          (set_pad_scale example_steps 0 10 0 Rooted Fourth False example_Push2))))
          (36 + (7 * 8) + 7))
     = Some (- 1)
   \<and> (- 1 :: int) \<noteq> (0 + 12 * 10) + 7 * row_interval_semitones Fourth False + 7"
  using example_overflow_run by (simp add: example_overflow_def)

text \<open>C4: recomputing the grid gives every pad a note of at most 127 or leaves it unmapped at
  the top of the range. In chromatic placement from root 0 in octave 10 with the origin
  Rooted and rows a fourth apart, the pad of row 1 and column 3 is given the note 128 and the
  call then ends in std::out_of_range, thrown by \<open>notes.test (128)\<close>.\<close>

theorem set_pad_scale_chromatic_out_of_range:
  "set_pad_scale example_steps 0 10 0 Rooted Fourth False example_Push2 = example_overflow
   \<and> isl example_overflow
   \<and> fst (projl example_overflow) = OutOfRange
   \<and> map_option filtered (map_of (nn_pad_map (snd (projl example_overflow))) (36 + (1 * 8) + 3))
       = Some 128"
  using example_overflow_run by (simp add: example_overflow_def)

subsection \<open>The end-to-end scenario\<close>

lemma example_steps_valid: "valid_mode_steps (example_steps m)"
  by (simp add: valid_mode_steps_def example_steps_def)

lemma example_in_scale_notes:
  "in_scale_notes (example_steps 0) 5 =
     [0, 2, 4, 5, 7, 9, 10, 12, 14, 16, 17, 19, 21, 22, 24, 26, 28, 29, 31, 33, 34, 36, 38,
      40, 41, 43, 45, 46, 48, 50, 52, 53, 55, 57, 58, 60, 62, 64, 65, 67, 69, 70, 72, 74,
      76, 77, 79, 81, 82, 84, 86, 88, 89, 91, 93, 94, 96, 98, 100, 101, 103, 105, 106, 108,
      110, 112, 113, 115, 117, 118, 120, 122, 124, 125, 127]"
  by (simp add: in_scale_notes_def mode_interval_set_def example_steps_def upto.simps)

lemma example_in_key_rows:
  "in_key_row (example_steps 0) 5 113 = [113, 115, 117, 118, 120, 122, 124, 125]"
  "in_key_row (example_steps 0) 5 118 = [118, 120, 122, 124, 125, 127]"
  "in_key_row (example_steps 0) 5 123 = [124, 125, 127]"
  by (simp_all add: in_key_row_def example_in_scale_notes)

theorem in_key_placement_witness:
  "mode_notes_vector example_steps 5 9 0
     = filter (\<lambda>n. 0 < n \<or> (5 :: int) = 0) (in_scale_notes (example_steps 0) 5)
   \<and> (\<exists>st'. set_pad_scale_in_key example_steps 5 9 0 Rooted 5 example_Push2 = Inr st'
         \<and> (\<exists>pad. map_of (nn_pad_map st') (36 + (0 * 8) + 0) = Some pad
                  \<and> filtered pad = 113 \<and> color_index pad = Green \<and> perma_color pad = 126
                  \<and> do_when_pressed pad = FlashOff \<and> led_state pad = NoTransition)
         \<and> (\<exists>pad. map_of (nn_pad_map st') (36 + (1 * 8) + 0) = Some pad
                  \<and> filtered pad = 118 \<and> color_index pad = White \<and> perma_color pad = 122
                  \<and> do_when_pressed pad = FlashOff \<and> led_state pad = NoTransition)
         \<and> (\<exists>pad. map_of (nn_pad_map st') (36 + (2 * 8) + 0) = Some pad
                  \<and> filtered pad = 124 \<and> color_index pad = White)
         \<and> map_of (nn_pad_map st') (36 + (1 * 8) + 6)
             = map_of (nn_pad_map example_Push2) (36 + (1 * 8) + 6))"
proof -
  from in_key_placement
    [where st = example_Push2 and scale_root = 5 and octave = 9 and origin = Rooted
       and ideal_first_note = 113 and ivs = 5 and steps = example_steps and mode = 0,
     OF example_Push2_has_pads _ _ _ _ example_steps_valid]
  obtain st' where v: "mode_notes_vector example_steps 5 9 0
           = filter (\<lambda>n. 0 < n \<or> (5 :: int) = 0) (in_scale_notes (example_steps 0) 5)"
    and s: "set_pad_scale_in_key example_steps 5 9 0 Rooted 5 example_Push2 = Inr st'"
    and a: "\<forall>r c. 0 \<le> r \<and> r \<le> 7 \<and> 0 \<le> c \<and> c \<le> 7 \<longrightarrow>
                (\<exists>pad0 pad.
                    map_of (nn_pad_map example_Push2) (36 + (r * 8) + c) = Some pad0
                  \<and> map_of (nn_pad_map st') (36 + (r * 8) + c) = Some pad
                  \<and> (if nat c < length (in_key_row (example_steps 0) 5 (113 + 5 * r))
                     then filtered pad = in_key_row (example_steps 0) 5 (113 + 5 * r) ! nat c
                          \<and> 113 + 5 * r \<le> filtered pad \<and> filtered pad \<le> 127
                          \<and> filtered pad mod 12 \<in> mode_interval_set (example_steps 0) 5
                          \<and> pad = set_pad_note_kind example_Push2
                                    (if filtered pad mod 12 = 5 then RootNote else InScaleNote)
                                    (pad0\<lparr>filtered := filtered pad\<rparr>)
                          \<and> color_index pad
                              = (if filtered pad mod 12 = 5
                                 then selection_color example_Push2 else White)
                          \<and> perma_color pad = uint (color_index pad)
                          \<and> do_when_pressed pad = FlashOff
                          \<and> led_state pad = NoTransition
                     else pad = pad0))"
    by auto
  have sel: "selection_color example_Push2 = Green"
    by (simp add: example_Push2_def new_Push2_def build_color_map_def build_maps_def)
  have c00: "\<exists>pad. map_of (nn_pad_map st') (36 + (0 * 8) + 0) = Some pad
                  \<and> filtered pad = 113 \<and> color_index pad = Green \<and> perma_color pad = 126
                  \<and> do_when_pressed pad = FlashOff \<and> led_state pad = NoTransition"
    using a [rule_format, of 0 0] by (auto simp: example_in_key_rows sel Green_def)
  have c10: "\<exists>pad. map_of (nn_pad_map st') (36 + (1 * 8) + 0) = Some pad
                  \<and> filtered pad = 118 \<and> color_index pad = White \<and> perma_color pad = 122
                  \<and> do_when_pressed pad = FlashOff \<and> led_state pad = NoTransition"
    using a [rule_format, of 1 0] by (auto simp: example_in_key_rows White_def)
  have c20: "\<exists>pad. map_of (nn_pad_map st') (36 + (2 * 8) + 0) = Some pad
                  \<and> filtered pad = 124 \<and> color_index pad = White"
    using a [rule_format, of 2 0] by (auto simp: example_in_key_rows White_def)
  have c16: "map_of (nn_pad_map st') (36 + (1 * 8) + 6)
             = map_of (nn_pad_map example_Push2) (36 + (1 * 8) + 6)"
    using a [rule_format, of 1 6] by (auto simp: example_in_key_rows)
  show ?thesis
    using v s c00 c10 c20 c16 by blast
qed

subsection \<open>Note-On with velocity zero\<close>

lemma as_note_off_set_note: "as_note_off (set_note n ev) = set_note n (as_note_off ev)"
  by (simp add: as_note_off_def set_note_def is_note_on_def)

lemma pad_filter_event_as_note_off:
  "pad_filter_event st (map as_note_off out, m) (as_note_off ev)
     = (map as_note_off (fst (pad_filter_event st (out, m) ev)),
        snd (pad_filter_event st (out, m) ev))"
  by (auto simp: pad_filter_event_def as_note_off_def set_note_def is_note_on_def
        is_note_off_def is_pitch_bender_def is_poly_pressure_def is_channel_pressure_def
      split: option.splits)

lemma foldl_pad_filter_event_as_note_off:
  "foldl (pad_filter_event st) (map as_note_off out, m) (map as_note_off inb)
     = (map as_note_off (fst (foldl (pad_filter_event st) (out, m) inb)),
        snd (foldl (pad_filter_event st) (out, m) inb))"
proof (induction inb arbitrary: out m)
  case Nil
  show ?case by simp
next
  case (Cons ev inb)
  obtain out' m' where step: "pad_filter_event st (out, m) ev = (out', m')"
    by (cases "pad_filter_event st (out, m) ev")
  then have "pad_filter_event st (map as_note_off out, m) (as_note_off ev)
             = (map as_note_off out', m')"
    using pad_filter_event_as_note_off [of st out m ev] by simp
  then show ?case
    using step Cons.IH [of out' m'] by simp
qed

lemma restore_pad_released:
  "restore_pad st k =
     (case map_of (nn_pad_map st) k of
        None \<Rightarrow> st
      | Some pad \<Rightarrow>
          st\<lparr>nn_pad_map := update_pad k released (nn_pad_map st),
             effects := effects st @ [Write (state_msg (released pad))]\<rparr>)"
proof -
  have "(\<lambda>pad. set_state NoTransition (set_color (word_of_int (perma_color pad)) pad)) = released"
    by (rule ext) (simp add: released_def set_state_def set_color_def)
  then show ?thesis
    by (simp add: restore_pad_def write_port_def released_def set_state_def set_color_def
          split: option.splits)
qed

lemma released_idem: "released (released pad) = released pad"
  by (simp add: released_def)

lemma foldl_restore_pad:
  "(\<forall>k. map_of (nn_pad_map (foldl restore_pad st ks)) k
          = (if k \<in> set ks then map_option released (map_of (nn_pad_map st) k)
             else map_of (nn_pad_map st) k))
   \<and> effects (foldl restore_pad st ks)
       = effects st
         @ map (\<lambda>k. Write (state_msg (released (the (map_of (nn_pad_map st) k)))))
             (filter (\<lambda>k. map_of (nn_pad_map st) k \<noteq> None) ks)
   \<and> (foldl restore_pad st ks)\<lparr>nn_pad_map := nn_pad_map st, effects := effects st\<rparr> = st"
proof (induction ks arbitrary: st)
  case Nil
  show ?case by simp
next
  case (Cons k ks)
  show ?case
  proof (cases "map_of (nn_pad_map st) k")
    case None
    then have r: "restore_pad st k = st" by (simp add: restore_pad_released)
    show ?thesis
      using Cons.IH [of st] None unfolding foldl_Cons r by auto
  next
    case (Some pad)
    let ?st1 = "st\<lparr>nn_pad_map := update_pad k released (nn_pad_map st),
                   effects := effects st @ [Write (state_msg (released pad))]\<rparr>"
    have r: "restore_pad st k = ?st1" using Some by (simp add: restore_pad_released)
    have m1: "map_of (nn_pad_map ?st1) j
              = (if j = k then Some (released pad) else map_of (nn_pad_map st) j)" for j
      using Some by (simp add: map_of_update_pad)
    have none: "(map_of (nn_pad_map ?st1) j \<noteq> None) = (map_of (nn_pad_map st) j \<noteq> None)" for j
      using m1 [of j] Some by simp
    have msg: "map_of (nn_pad_map st) j \<noteq> None \<Longrightarrow>
               released (the (map_of (nn_pad_map ?st1) j)) = released (the (map_of (nn_pad_map st) j))"
      for j
      using m1 [of j] Some by (simp add: released_idem)
    have eff: "map (\<lambda>k. Write (state_msg (released (the (map_of (nn_pad_map ?st1) k)))))
                 (filter (\<lambda>k. map_of (nn_pad_map ?st1) k \<noteq> None) ks)
               = map (\<lambda>k. Write (state_msg (released (the (map_of (nn_pad_map st) k)))))
                   (filter (\<lambda>k. map_of (nn_pad_map st) k \<noteq> None) ks)"
      unfolding none
    proof (rule map_cong)
      fix j assume "j \<in> set (filter (\<lambda>k. map_of (nn_pad_map st) k \<noteq> None) ks)"
      then have "map_of (nn_pad_map st) j \<noteq> None" by simp
      from msg [OF this]
      show "Write (state_msg (released (the (map_of (nn_pad_map ?st1) j))))
            = Write (state_msg (released (the (map_of (nn_pad_map st) j))))"
        by (simp only:)
    qed (rule refl)
    note ih = Cons.IH [of ?st1]
    have a: "\<forall>j. map_of (nn_pad_map (foldl restore_pad ?st1 ks)) j
          = (if j \<in> set (k # ks) then map_option released (map_of (nn_pad_map st) j)
             else map_of (nn_pad_map st) j)"
    proof
      fix j
      have "map_of (nn_pad_map (foldl restore_pad ?st1 ks)) j
            = (if j \<in> set ks then map_option released (map_of (nn_pad_map ?st1) j)
               else map_of (nn_pad_map ?st1) j)"
        using ih by blast
      then show "map_of (nn_pad_map (foldl restore_pad ?st1 ks)) j
          = (if j \<in> set (k # ks) then map_option released (map_of (nn_pad_map st) j)
             else map_of (nn_pad_map st) j)"
        using m1 [of j] Some by (auto simp: released_idem)
    qed
    have b: "effects (foldl restore_pad ?st1 ks)
       = effects st
         @ map (\<lambda>k. Write (state_msg (released (the (map_of (nn_pad_map st) k)))))
             (filter (\<lambda>k. map_of (nn_pad_map st) k \<noteq> None) (k # ks))"
      using ih Some unfolding eff by simp
    have c0: "(foldl restore_pad ?st1 ks)\<lparr>nn_pad_map := nn_pad_map ?st1, effects := effects ?st1\<rparr>
              = ?st1"
      using ih by blast
    have "(foldl restore_pad ?st1 ks)\<lparr>nn_pad_map := nn_pad_map st, effects := effects st\<rparr>
          = ((foldl restore_pad ?st1 ks)\<lparr>nn_pad_map := nn_pad_map ?st1, effects := effects ?st1\<rparr>)
              \<lparr>nn_pad_map := nn_pad_map st, effects := effects st\<rparr>"
      by simp
    also have "\<dots> = st" unfolding c0 by simp
    finally have c: "(foldl restore_pad ?st1 ks)\<lparr>nn_pad_map := nn_pad_map st, effects := effects st\<rparr> = st" .
    show ?thesis
      unfolding foldl_Cons r using a b c by simp
  qed
qed

lemma equal_range_at_end_Nil:
  "equal_range_at_end k m \<Longrightarrow> equal_range k m = []"
  by (auto simp: equal_range_at_end_def equal_range_def list_all_iff filter_empty_conv)

lemma state_msg_released:
  "state_msg (released pad) = [0x90, extra pad, word_of_int (perma_color pad)]"
  by (simp add: state_msg_def released_def)

lemma handle_midi_note_off_message_pads:
  assumes "11 \<le> note_number ev"
    and "map_of (nn_pad_map st) (note_number ev) = Some pad_pressed"
    and "current_layout st \<noteq> cue_layout"
  shows "handle_midi_note_off_message ev st
         = Inr (foldl restore_pad st (equal_range (filtered pad_pressed) (fn_pad_map st)))"
  using assms equal_range_at_end_Nil [of "filtered pad_pressed" "fn_pad_map st"]
  by (simp add: handle_midi_note_off_message_def)

lemma pad_filter_single:
  "pad_filter st [ev] out =
     (if current_layout st = cue_layout then (out, False)
      else pad_filter_event st (out, False) ev)"
  by (simp add: pad_filter_def)

text \<open>C9 (amended): a message with velocity zero is handled by the handler of Note-Off
  messages, whichever signal of the parser delivers it, and that handler does not look at the
  velocity. So for a note below 11, or one that is no pad, nothing changes; in the cue layout
  the release of the pad is passed to the layout; otherwise every pad that generates the same
  note as the pad shows its permanent colour again, without transition, and its state message
  is written, and no other member changes. The filter does not look at the velocity either:
  a Note-On, of velocity zero or not, is passed or dropped exactly as a Note-Off of the same
  note, with the same rewritten note and the same result, and each event that is passed
  keeps its own type and velocity; for whole buffers, reading the velocity-zero Note-Ons as
  Note-Offs before the filter or after it gives the same output.\<close>

theorem velocity_zero_note_on_released:
  "(velocity ev = 0 \<and> note_number ev' = note_number ev \<longrightarrow>
      parser_note_on ev st = handle_midi_note_off_message ev' st
      \<and> parser_note_off ev st = handle_midi_note_off_message ev' st)
   \<and> (velocity ev = 0
        \<and> (note_number ev < 11 \<or> map_of (nn_pad_map st) (note_number ev) = None) \<longrightarrow>
        parser_note_on ev st = Inr st)
   \<and> (velocity ev = 0 \<and> 11 \<le> note_number ev
        \<and> map_of (nn_pad_map st) (note_number ev) = Some pad_pressed
        \<and> current_layout st = cue_layout \<longrightarrow>
        parser_note_on ev st
          = Inr (effect (PadRelease (pad_x pad_pressed) (pad_y pad_pressed)) st))
   \<and> (velocity ev = 0 \<and> 11 \<le> note_number ev
        \<and> map_of (nn_pad_map st) (note_number ev) = Some pad_pressed
        \<and> current_layout st \<noteq> cue_layout \<longrightarrow>
        (\<exists>st'. parser_note_on ev st = Inr st'
           \<and> st'\<lparr>nn_pad_map := nn_pad_map st, effects := effects st\<rparr> = st
           \<and> effects st'
               = effects st
                 @ map (\<lambda>k. Write [0x90, extra (the (map_of (nn_pad_map st) k)),
                                    word_of_int (perma_color (the (map_of (nn_pad_map st) k)))])
                     (filter (\<lambda>k. map_of (nn_pad_map st) k \<noteq> None)
                        (equal_range (filtered pad_pressed) (fn_pad_map st)))
           \<and> (\<forall>k. map_of (nn_pad_map st') k
                  = (if k \<in> set (equal_range (filtered pad_pressed) (fn_pad_map st))
                     then map_option
                            (\<lambda>pad. pad\<lparr>color_index := word_of_int (perma_color pad),
                                        led_state := NoTransition\<rparr>)
                            (map_of (nn_pad_map st) k)
                     else map_of (nn_pad_map st) k))))
   \<and> (is_note_on ev1 \<and> is_note_off ev2 \<and> ev_note ev2 = ev_note ev1 \<longrightarrow>
        fst (pad_filter st [ev1] out)
          = out @ map (\<lambda>e. set_note (ev_note e) ev1) (fst (pad_filter st [ev1] []))
        \<and> fst (pad_filter st [ev2] out)
          = out @ map (\<lambda>e. set_note (ev_note e) ev2) (fst (pad_filter st [ev1] []))
        \<and> snd (pad_filter st [ev2] out) = snd (pad_filter st [ev1] out))
   \<and> pad_filter st (map as_note_off inb) (map as_note_off out)
       = (map as_note_off (fst (pad_filter st inb out)), snd (pad_filter st inb out))"
proof (intro conjI impI)
  show "parser_note_on ev st = handle_midi_note_off_message ev' st"
    "parser_note_off ev st = handle_midi_note_off_message ev' st"
    if "velocity ev = 0 \<and> note_number ev' = note_number ev"
    using that
    by (simp_all add: handle_midi_note_on_message_def parser_note_on_def parser_note_off_def
          handle_midi_note_off_message_def)
  show "parser_note_on ev st = Inr st"
    if "velocity ev = 0
        \<and> (note_number ev < 11 \<or> map_of (nn_pad_map st) (note_number ev) = None)"
    using that
    by (auto simp: handle_midi_note_on_message_def parser_note_on_def
          handle_midi_note_off_message_def)
  show "parser_note_on ev st
          = Inr (effect (PadRelease (pad_x pad_pressed) (pad_y pad_pressed)) st)"
    if "velocity ev = 0 \<and> 11 \<le> note_number ev
        \<and> map_of (nn_pad_map st) (note_number ev) = Some pad_pressed
        \<and> current_layout st = cue_layout"
    using that
    by (simp add: handle_midi_note_on_message_def parser_note_on_def
          handle_midi_note_off_message_def layout_call_def cue_layout_def)
  show "pad_filter st (map as_note_off inb) (map as_note_off out)
       = (map as_note_off (fst (pad_filter st inb out)), snd (pad_filter st inb out))"
    by (simp add: pad_filter_def foldl_pad_filter_event_as_note_off)
next
  assume a: "velocity ev = 0 \<and> 11 \<le> note_number ev
        \<and> map_of (nn_pad_map st) (note_number ev) = Some pad_pressed
        \<and> current_layout st \<noteq> cue_layout"
  let ?ks = "equal_range (filtered pad_pressed) (fn_pad_map st)"
  have run: "parser_note_on ev st = Inr (foldl restore_pad st ?ks)"
    using a handle_midi_note_off_message_pads [of ev st pad_pressed]
    by (simp add: parser_note_on_def handle_midi_note_on_message_def)
  have rel: "released = (\<lambda>pad. pad\<lparr>color_index := word_of_int (perma_color pad),
                                        led_state := NoTransition\<rparr>)"
    by (rule ext) (simp add: released_def)
  note f = foldl_restore_pad [of st ?ks, unfolded state_msg_released, unfolded rel]
  show "\<exists>st'. parser_note_on ev st = Inr st'
           \<and> st'\<lparr>nn_pad_map := nn_pad_map st, effects := effects st\<rparr> = st
           \<and> effects st'
               = effects st
                 @ map (\<lambda>k. Write [0x90, extra (the (map_of (nn_pad_map st) k)),
                                    word_of_int (perma_color (the (map_of (nn_pad_map st) k)))])
                     (filter (\<lambda>k. map_of (nn_pad_map st) k \<noteq> None) ?ks)
           \<and> (\<forall>k. map_of (nn_pad_map st') k
                  = (if k \<in> set ?ks
                     then map_option
                            (\<lambda>pad. pad\<lparr>color_index := word_of_int (perma_color pad),
                                        led_state := NoTransition\<rparr>)
                            (map_of (nn_pad_map st) k)
                     else map_of (nn_pad_map st) k))"
    using run f by (intro exI [of _ "foldl restore_pad st ?ks"]) blast
next
  assume a: "is_note_on ev1 \<and> is_note_off ev2 \<and> ev_note ev2 = ev_note ev1"
  show "fst (pad_filter st [ev1] out)
          = out @ map (\<lambda>e. set_note (ev_note e) ev1) (fst (pad_filter st [ev1] []))"
    using a
    by (auto simp: pad_filter_single pad_filter_event_def set_note_def split: option.splits)
  show "fst (pad_filter st [ev2] out)
          = out @ map (\<lambda>e. set_note (ev_note e) ev2) (fst (pad_filter st [ev1] []))"
    using a
    by (auto simp: pad_filter_single pad_filter_event_def set_note_def split: option.splits)
  show "snd (pad_filter st [ev2] out) = snd (pad_filter st [ev1] out)"
    using a
    by (auto simp: pad_filter_single pad_filter_event_def set_note_def split: option.splits)
qed

lemma example_grid_filter:
  "fst (pad_filter example_grid [\<lparr>ev_type = NoteOn, ev_note = 39, ev_velocity = 0\<rparr>] [])
     = [\<lparr>ev_type = NoteOn, ev_note = 41, ev_velocity = 0\<rparr>]"
  "fst (pad_filter example_grid [\<lparr>ev_type = NoteOff, ev_note = 39, ev_velocity = 0\<rparr>] [])
     = [\<lparr>ev_type = NoteOff, ev_note = 41, ev_velocity = 0\<rparr>]"
  by code_simp+

lemma example_grid_handlers:
  "new_effects example_grid (parser_note_on \<lparr>note_number = 39, velocity = 0\<rparr> example_grid)
     = [Write [0x90, 39, 122], Write [0x90, 44, 122]]"
  "new_effects example_grid (parser_note_off \<lparr>note_number = 39, velocity = 64\<rparr> example_grid)
     = [Write [0x90, 39, 0], Write [0x90, 44, 0]]"
  by code_simp+

text \<open>C9 (as stated): a Note-On with velocity zero produces the same state change and the
  same output events as a Note-Off for that note. The filter passes the Note-On of velocity
  zero as a Note-On, not as the Note-Off it passes for a Note-Off. And a Note-Off that
  arrives with a release velocity is handled by handle_midi_note_on_message, to which
  connect_to_parser binds the Note-Off signal too, as a press: the pads of the note are
  flashed, where the Note-On of velocity zero restores them.\<close>

theorem velocity_zero_note_on_counterexample:
  "fst (pad_filter example_grid [\<lparr>ev_type = NoteOn, ev_note = 39, ev_velocity = 0\<rparr>] [])
     = [\<lparr>ev_type = NoteOn, ev_note = 41, ev_velocity = 0\<rparr>]
   \<and> fst (pad_filter example_grid [\<lparr>ev_type = NoteOff, ev_note = 39, ev_velocity = 0\<rparr>] [])
     = [\<lparr>ev_type = NoteOff, ev_note = 41, ev_velocity = 0\<rparr>]
   \<and> fst (pad_filter example_grid [\<lparr>ev_type = NoteOn, ev_note = 39, ev_velocity = 0\<rparr>] [])
     \<noteq> fst (pad_filter example_grid [\<lparr>ev_type = NoteOff, ev_note = 39, ev_velocity = 0\<rparr>] [])
   \<and> new_effects example_grid
         (parser_note_on \<lparr>note_number = 39, velocity = 0\<rparr> example_grid)
     = [Write [0x90, 39, 122], Write [0x90, 44, 122]]
   \<and> new_effects example_grid
         (parser_note_off \<lparr>note_number = 39, velocity = 64\<rparr> example_grid)
     = [Write [0x90, 39, 0], Write [0x90, 44, 0]]
   \<and> parser_note_on \<lparr>note_number = 39, velocity = 0\<rparr> example_grid
     \<noteq> parser_note_off \<lparr>note_number = 39, velocity = 64\<rparr> example_grid"
proof -
  have "parser_note_on \<lparr>note_number = 39, velocity = 0\<rparr> example_grid
        \<noteq> parser_note_off \<lparr>note_number = 39, velocity = 64\<rparr> example_grid"
  proof
    assume "parser_note_on \<lparr>note_number = 39, velocity = 0\<rparr> example_grid
            = parser_note_off \<lparr>note_number = 39, velocity = 64\<rparr> example_grid"
    then have "new_effects example_grid
                 (parser_note_on \<lparr>note_number = 39, velocity = 0\<rparr> example_grid)
               = new_effects example_grid
                   (parser_note_off \<lparr>note_number = 39, velocity = 64\<rparr> example_grid)"
      by simp
    then show False unfolding example_grid_handlers by simp
  qed
  then show ?thesis
    using example_grid_filter example_grid_handlers by simp
qed

lemma example_held_facts:
  "current_layout example_held = Some MixLayout"
  "map_option (\<lambda>p. (extra p, color_index p, perma_color p, filtered p))
     (map_of (nn_pad_map example_held) 39) = Some (39, 0, 122, 41)"
  "map_option (\<lambda>p. (extra p, color_index p, perma_color p, filtered p))
     (map_of (nn_pad_map example_held) 44) = Some (44, 0, 122, 41)"
  "equal_range 41 (fn_pad_map example_held) = [39, 44]"
  "map_of (nn_pad_map example_held) 12 = None"
  by code_simp+

lemma example_held_pads:
  "map_option (\<lambda>p. (pad_x p, pad_y p)) (map_of (nn_pad_map example_held) 39) = Some (3, 0)"
  "fst (pad_filter example_held [\<lparr>ev_type = NoteOn, ev_note = 39, ev_velocity = 0\<rparr>] [])
     = [\<lparr>ev_type = NoteOn, ev_note = 41, ev_velocity = 0\<rparr>]"
  by code_simp+

theorem velocity_zero_note_on_released_witness:
  "parser_note_on \<lparr>note_number = 39, velocity = 0\<rparr> example_held
     = handle_midi_note_off_message \<lparr>note_number = 39, velocity = 64\<rparr> example_held
   \<and> parser_note_off \<lparr>note_number = 39, velocity = 0\<rparr> example_held
     = handle_midi_note_off_message \<lparr>note_number = 39, velocity = 64\<rparr> example_held
   \<and> parser_note_on \<lparr>note_number = 12, velocity = 0\<rparr> example_held = Inr example_held
   \<and> parser_note_on \<lparr>note_number = 39, velocity = 0\<rparr>
        (example_held\<lparr>current_layout := cue_layout\<rparr>)
     = Inr (effect (PadRelease 3 0) (example_held\<lparr>current_layout := cue_layout\<rparr>))
   \<and> (\<exists>st'. parser_note_on \<lparr>note_number = 39, velocity = 0\<rparr> example_held = Inr st'
          \<and> effects st' = effects example_held @ [Write [0x90, 39, 122], Write [0x90, 44, 122]]
          \<and> map_option color_index (map_of (nn_pad_map example_held) 39) = Some 0
          \<and> map_option color_index (map_of (nn_pad_map st') 39) = Some 122
          \<and> map_option color_index (map_of (nn_pad_map st') 44) = Some 122)
   \<and> fst (pad_filter example_held [\<lparr>ev_type = NoteOn, ev_note = 39, ev_velocity = 0\<rparr>] [])
     = [\<lparr>ev_type = NoteOn, ev_note = 41, ev_velocity = 0\<rparr>]
   \<and> fst (pad_filter example_held [\<lparr>ev_type = NoteOff, ev_note = 39, ev_velocity = 64\<rparr>] [])
     = [\<lparr>ev_type = NoteOff, ev_note = 41, ev_velocity = 64\<rparr>]"
proof -
  let ?on = "\<lparr>note_number = 39, velocity = 0\<rparr>"
  let ?off = "\<lparr>note_number = 39, velocity = 64\<rparr>"
  let ?cue = "example_held\<lparr>current_layout := cue_layout\<rparr>"
  let ?e1 = "\<lparr>ev_type = NoteOn, ev_note = 39, ev_velocity = 0\<rparr>"
  let ?e2 = "\<lparr>ev_type = NoteOff, ev_note = 39, ev_velocity = 64\<rparr>"
  obtain p where p: "map_of (nn_pad_map example_held) 39 = Some p"
    and pf: "extra p = 39" "color_index p = 0" "perma_color p = 122" "filtered p = 41"
    using example_held_facts(2) by auto
  obtain q where q: "map_of (nn_pad_map example_held) 44 = Some q"
    and qf: "extra q = 44" "color_index q = 0" "perma_color q = 122" "filtered q = 41"
    using example_held_facts(3) by auto
  have xy: "pad_x p = 3" "pad_y p = 0"
    using example_held_pads(1) p by simp_all
  have lay: "current_layout example_held \<noteq> cue_layout"
    by (simp add: example_held_facts(1) cue_layout_def)
  note t = velocity_zero_note_on_released
    [where ev = ?on and ev' = ?off and st = example_held and pad_pressed = p
       and ?ev1.0 = ?e1 and ?ev2.0 = ?e2 and out = "[]"]
  have a: "parser_note_on ?on example_held = handle_midi_note_off_message ?off example_held"
    "parser_note_off ?on example_held = handle_midi_note_off_message ?off example_held"
    using t by simp_all
  have b: "parser_note_on \<lparr>note_number = 12, velocity = 0\<rparr> example_held = Inr example_held"
    using velocity_zero_note_on_released
      [where ev = "\<lparr>note_number = 12, velocity = 0\<rparr>" and st = example_held]
      example_held_facts(5)
    by simp
  have c: "parser_note_on ?on ?cue = Inr (effect (PadRelease 3 0) ?cue)"
    using velocity_zero_note_on_released
      [where ev = ?on and st = ?cue and pad_pressed = p] p xy
    by simp
  note t4 = t [THEN conjunct2, THEN conjunct2, THEN conjunct2, THEN conjunct1, rule_format]
  have "velocity ?on = 0 \<and> 11 \<le> note_number ?on
        \<and> map_of (nn_pad_map example_held) (note_number ?on) = Some p
        \<and> current_layout example_held \<noteq> cue_layout"
    using p lay by simp
  from t4 [OF this] obtain st' where s: "parser_note_on ?on example_held = Inr st'"
    and e: "effects st'
               = effects example_held
                 @ map (\<lambda>k. Write [0x90, extra (the (map_of (nn_pad_map example_held) k)),
                                    word_of_int (perma_color (the (map_of (nn_pad_map example_held) k)))])
                     (filter (\<lambda>k. map_of (nn_pad_map example_held) k \<noteq> None)
                        (equal_range (filtered p) (fn_pad_map example_held)))"
    and m: "\<forall>k. map_of (nn_pad_map st') k
                  = (if k \<in> set (equal_range (filtered p) (fn_pad_map example_held))
                     then map_option
                            (\<lambda>pad. pad\<lparr>color_index := word_of_int (perma_color pad),
                                        led_state := NoTransition\<rparr>)
                            (map_of (nn_pad_map example_held) k)
                     else map_of (nn_pad_map example_held) k)"
    by blast
  have d: "\<exists>st'. parser_note_on ?on example_held = Inr st'
          \<and> effects st' = effects example_held @ [Write [0x90, 39, 122], Write [0x90, 44, 122]]
          \<and> map_option color_index (map_of (nn_pad_map example_held) 39) = Some 0
          \<and> map_option color_index (map_of (nn_pad_map st') 39) = Some 122
          \<and> map_option color_index (map_of (nn_pad_map st') 44) = Some 122"
    using s e m [rule_format, of 39] m [rule_format, of 44] p q pf qf
    by (intro exI [of _ st']) (simp add: example_held_facts(4))
  have f: "fst (pad_filter example_held [?e2] [])
           = [\<lparr>ev_type = NoteOff, ev_note = 41, ev_velocity = 64\<rparr>]"
    using t example_held_pads(2) by (simp add: is_note_on_def is_note_off_def set_note_def)
  show ?thesis
    using a b c d example_held_pads(2) f by blast
qed

subsection \<open>The connection state machine\<close>

lemma begin_calls_append [simp]: "begin_calls (xs @ ys) = begin_calls xs + begin_calls ys"
  by (simp add: begin_calls_def)

lemma stop_calls_append [simp]: "stop_calls (xs @ ys) = stop_calls xs + stop_calls ys"
  by (simp add: stop_calls_def)

lemma calls_Nil [simp]: "begin_calls [] = 0" "stop_calls [] = 0"
  by (simp_all add: begin_calls_def stop_calls_def)

lemma calls_Cons [simp]:
  "begin_calls (e # es) = (if e = DebugTrace ''begin using device'' then 1 else 0) + begin_calls es"
  "stop_calls (e # es) = (if e = DebugTrace ''stop using device'' then 1 else 0) + stop_calls es"
  by (simp_all add: begin_calls_def stop_calls_def)

lemma kept_refl: "kept st st"
  by (simp add: kept_def)

lemma kept_trans: "kept st st1 \<Longrightarrow> kept st1 st2 \<Longrightarrow> kept st st2"
  by (simp add: kept_def)

lemma button_ids_all: "b \<in> set button_ids"
  by (cases b) (simp_all add: button_ids_def)

lemma has_buttons_iff: "has_buttons st \<longleftrightarrow> (\<forall>b. map_of (id_button_map st) b \<noteq> None)"
  unfolding has_buttons_def list_all_iff using button_ids_all by auto

lemma map_of_update_button:
  "map_of (update_button k f ps) k'
   = (if k' = k then map_option f (map_of ps k) else map_of ps k')"
  by (induction ps) auto

lemma map_fst_update_button: "map fst (update_button k f ps) = map fst ps"
  by (induction ps) auto

lemma quiet_trans: "quiet st st1 \<Longrightarrow> quiet st1 st2 \<Longrightarrow> quiet st st2"
  using kept_trans by (auto simp: quiet_def)

lemma quiet_write_port: "ready st \<Longrightarrow> quiet st (write_port d st)"
  by (simp add: quiet_def kept_def ready_def write_port_def has_pads_def has_buttons_def)

lemma quiet_effect:
  "ready st \<Longrightarrow> e \<noteq> DebugTrace ''begin using device'' \<Longrightarrow> e \<noteq> DebugTrace ''stop using device''
   \<Longrightarrow> quiet st (effect e st)"
  by (simp add: quiet_def kept_def ready_def effect_def has_pads_def has_buttons_def)

lemma for_loop_inv:
  assumes "\<And>i st. Q st \<Longrightarrow> \<exists>st'. body i st = Inr st' \<and> Q st'" and "Q st"
  shows "\<exists>st'. for_loop is body st = Inr st' \<and> Q st'"
  using assms(2)
proof (induction "is" arbitrary: st)
  case Nil
  then show ?case by simp
next
  case (Cons i "is")
  from assms(1) [OF Cons.prems, of i] obtain st1 where s: "body i st = Inr st1" "Q st1" by blast
  from Cons.IH [OF s(2)] show ?case using s(1) by simp
qed

lemma set_button_quiet:
  assumes "ready st"
  shows "\<exists>st'. set_button color state bid st = Inr st' \<and> quiet st st'"
proof -
  obtain b where b: "map_of (id_button_map st) bid = Some b"
    using assms by (auto simp: ready_def has_buttons_iff)
  show ?thesis
    using assms b
    by (simp add: set_button_def quiet_def kept_def ready_def write_port_def has_pads_def
          has_buttons_iff map_of_update_button)
qed

lemma for_loop_set_button_quiet:
  assumes "ready st"
  shows "\<exists>st'. for_loop bs (set_button color state) st = Inr st' \<and> quiet st st'"
proof (rule for_loop_inv [where Q = "\<lambda>s. quiet st s"])
  show "quiet st st" using assms by (simp add: quiet_def kept_refl)
  fix i and s :: "'a push2"
  assume q: "quiet st s"
  then have "ready s" by (simp add: quiet_def)
  from set_button_quiet [OF this, of color state i]
  obtain s' where "set_button color state i s = Inr s'" "quiet s s'" by blast
  then show "\<exists>st'. set_button color state i s = Inr st' \<and> quiet st st'"
    using q quiet_trans by blast
qed

lemma strip_buttons_off_quiet:
  "ready st \<Longrightarrow> \<exists>st'. strip_buttons_off st = Inr st' \<and> quiet st st'"
  unfolding strip_buttons_off_def by (rule for_loop_set_button_quiet)

lemma blackout_button_quiet: "ready st \<Longrightarrow> quiet st (blackout_button st bid)"
  by (simp add: blackout_button_def quiet_def kept_def ready_def write_port_def has_pads_def
        has_buttons_iff map_of_update_button split: option.splits)

lemma foldl_blackout_button_quiet:
  "ready st \<Longrightarrow> quiet st (foldl blackout_button st bs)"
proof (induction bs arbitrary: st)
  case Nil
  then show ?case by (simp add: quiet_def kept_refl)
next
  case (Cons b bs)
  have q: "quiet st (blackout_button st b)" using Cons.prems by (rule blackout_button_quiet)
  then have "ready (blackout_button st b)" by (simp add: quiet_def)
  from Cons.IH [OF this] q show ?case
    using quiet_trans by fastforce
qed

lemma init_buttons_quiet:
  assumes "ready st"
  shows "\<exists>st'. init_buttons startup st = Inr st' \<and> quiet st st'"
proof (cases startup)
  case True
  from for_loop_set_button_quiet [OF assms]
  obtain st1 where s1: "for_loop [Mute, Solo, Master, Up, Right, Left, Down, Note, Session, Mix, AddTrack,
                     Delete, Undo, Metronome, Shift, Select, Play, RecordEnable, Automate,
                     Repeat, Note, Session, Quantize, Duplicate, Browse, PageRight, PageLeft,
                     OctaveUp, OctaveDown, Layout, Scale, Stop]
             (set_button White NoTransition) st = Inr st1" and q1: "quiet st st1"
    by blast
  have "ready st1" using q1 by (simp add: quiet_def)
  from for_loop_set_button_quiet [OF this]
  obtain st2 where s2: "for_loop [TapTempo, Setup, User, Convert, New, FixedLength, Clip,
                     Fwd32ndT, Fwd32nd, Fwd16thT, Fwd16th, Fwd8thT, Fwd8th, Fwd4trT, Fwd4tr,
                     Accent, Note]
             (set_button Black OneShot24th) st1 = Inr st2" and q2: "quiet st1 st2"
    by blast
  show ?thesis
    using True s1 s2 quiet_trans [OF q1 q2] by (simp add: init_buttons_def and_then_def)
next
  case False
  let ?st1 = "case current_layout st of None \<Rightarrow> st | Some l \<Rightarrow> effect (LayoutHide l) st"
  have q1: "quiet st ?st1"
  proof (cases "current_layout st")
    case None
    then show ?thesis using assms by (simp add: quiet_def kept_refl)
  next
    case (Some l)
    then show ?thesis using quiet_effect [OF assms, of "LayoutHide l"] by simp
  qed
  then have "ready ?st1" by (simp add: quiet_def)
  from foldl_blackout_button_quiet [OF this, of "map fst (id_button_map ?st1)"]
  have "quiet st (foldl blackout_button ?st1 (map fst (id_button_map ?st1)))"
    using q1 quiet_trans by blast
  then show ?thesis
    using False by (simp add: init_buttons_def Let_def)
qed

lemma in_key_cols_frame:
  "in_key_cols scale_root row col ns st = Inr st'
   \<Longrightarrow> st'\<lparr>nn_pad_map := [], fn_pad_map := []\<rparr> = st\<lparr>nn_pad_map := [], fn_pad_map := []\<rparr>"
proof (induction ns arbitrary: col st)
  case Nil
  then show ?case by simp
next
  case (Cons n ns)
  show ?case
  proof (cases "col < 8")
    case False
    then show ?thesis using Cons.prems by simp
  next
    case True
    show ?thesis
    proof (cases "map_of (nn_pad_map st) (36 + (row * 8) + col)")
      case None
      then show ?thesis using True Cons.prems by simp
    next
      case (Some pad)
      let ?st1 = "st\<lparr>nn_pad_map :=
                     update_pad (36 + (row * 8) + col)
                       (\<lambda>pad. set_pad_note_kind st
                                 (if n smod 12 = scale_root then RootNote else InScaleNote)
                                 (pad\<lparr>filtered := n\<rparr>))
                       (nn_pad_map st),
                   fn_pad_map := fn_insert (n, 36 + (row * 8) + col) (fn_pad_map st)\<rparr>"
      have "in_key_cols scale_root row (col + 1) ns ?st1 = Inr st'"
        using True Some Cons.prems by simp
      from Cons.IH [OF this] show ?thesis by simp
    qed
  qed
qed

lemma for_loop_frame:
  assumes "\<And>i s s'. body i s = Inr s' \<Longrightarrow> F s' = F s"
  shows "for_loop is body st = Inr st' \<Longrightarrow> F st' = F st"
proof (induction "is" arbitrary: st)
  case Nil
  then show ?case by simp
next
  case (Cons i "is")
  show ?case
  proof (cases "body i st")
    case (Inl e)
    then show ?thesis using Cons.prems by simp
  next
    case (Inr s1)
    then have "for_loop is body s1 = Inr st'" using Cons.prems by simp
    from Cons.IH [OF this] assms [OF Inr] show ?thesis by simp
  qed
qed

lemma foldl_write_port:
  "foldl (\<lambda>st p. write_port (g p) st) st ps
   = st\<lparr>effects := effects st @ map (\<lambda>p. Write (g p)) ps\<rparr>"
  by (induction ps arbitrary: st) (simp_all add: write_port_def)

lemma calls_writes:
  "begin_calls (map (\<lambda>p. Write (g p)) ps) = 0" "stop_calls (map (\<lambda>p. Write (g p)) ps) = 0"
  by (induction ps) simp_all

lemma store_scale_fields:
  "store_scale scale_root octave mode origin row_interval inkey st
   = (st\<lparr>cfg_scale_root := scale_root, cfg_root_octave := octave,
          cfg_in_key := inkey, cfg_mode := mode,
          cfg_note_grid_origin := origin, cfg_row_interval := row_interval\<rparr>)
       \<lparr>effects := effects st @ (if cfg_scale_root st \<noteq> scale_root \<or> cfg_root_octave st \<noteq> octave
                     \<or> cfg_in_key st \<noteq> inkey \<or> cfg_mode st \<noteq> mode
                     \<or> cfg_note_grid_origin st \<noteq> origin \<or> cfg_row_interval st \<noteq> row_interval
                                 then [ScaleChange] else [])\<rparr>"
  by (simp add: store_scale_def Let_def)

lemma set_pad_scale_in_key_quiet:
  assumes r: "ready st"
  shows "\<exists>st'. set_pad_scale steps scale_root octave mode origin row_interval True st = Inr st'
            \<and> quiet st st'
            \<and> id_button_map st' = id_button_map st
            \<and> current_layout st' = current_layout st"
proof -
  let ?st1 = "st\<lparr>fn_pad_map := [],
                 nn_pad_map := map (\<lambda>p. (fst p, reset_pad (snd p))) (nn_pad_map st)\<rparr>"
  let ?F = "\<lambda>s :: 'a push2. s\<lparr>nn_pad_map := [], fn_pad_map := []\<rparr>"
  have p1: "has_pads ?st1"
    using r unfolding ready_def has_pads_iff by (simp add: map_of_map_snd)
  define ns where "ns = mode_notes_vector steps scale_root octave mode"
  define first :: int where "first = (if origin = Fixed then 36 else scale_root + (12 * octave))"
  define rn where "rn = (\<lambda>row. drop (lower_bound ns
                 (first + (row_interval_semitones row_interval True * row))) ns)"
  from in_key_rows [OF p1, of scale_root rn]
  obtain st2 where s: "for_loop [0..7] (\<lambda>row st. in_key_cols scale_root row 0 (rn row) st)
                         ?st1 = Inr st2"
    and p2: "has_pads st2"
    by blast
  have f: "?F st2 = ?F ?st1"
    using s by (rule for_loop_frame [rotated]) (rule in_key_cols_frame)
  have run: "set_pad_scale_in_key steps scale_root octave mode origin
               (row_interval_semitones row_interval True) ?st1 = Inr st2"
    using s unfolding set_pad_scale_in_key_def Let_def ns_def first_def rn_def .
  let ?st3 = "foldl (\<lambda>st p. write_port (state_msg (snd p)) st) st2 (nn_pad_map st2)"
  let ?st' = "store_scale scale_root octave mode origin row_interval True ?st3"
  have res: "set_pad_scale steps scale_root octave mode origin row_interval True st = Inr ?st'"
    using run by (simp add: set_pad_scale_def Let_def)
  have fields: "connection_state st2 = connection_state st" "in_use st2 = in_use st"
    "input_port st2 = input_port st" "output_port st2 = output_port st"
    "async_in_name st2 = async_in_name st" "async_out_name st2 = async_out_name st"
    "effects st2 = effects st" "id_button_map st2 = id_button_map st"
    "current_layout st2 = current_layout st"
    using arg_cong [OF f, of connection_state] arg_cong [OF f, of in_use]
      arg_cong [OF f, of input_port] arg_cong [OF f, of output_port]
      arg_cong [OF f, of async_in_name] arg_cong [OF f, of async_out_name]
      arg_cong [OF f, of effects] arg_cong [OF f, of id_button_map]
      arg_cong [OF f, of current_layout]
    by simp_all
  have "has_pads ?st'"
    using p2 unfolding has_pads_iff by (simp add: nn_pad_map_store_scale nn_pad_map_writes)
  moreover have "has_buttons ?st'"
    using r fields(8) unfolding ready_def has_buttons_iff
    by (simp add: store_scale_fields foldl_write_port)
  moreover have "cfg_in_key ?st'" by (simp add: store_scale_fields)
  moreover have "input_port ?st'"
    using r fields(3) unfolding ready_def by (simp add: store_scale_fields foldl_write_port)
  moreover have "kept st ?st'"
    using fields unfolding kept_def by (simp add: store_scale_fields foldl_write_port calls_writes)
  moreover have "id_button_map ?st' = id_button_map st" "current_layout ?st' = current_layout st"
    using fields by (simp_all add: store_scale_fields foldl_write_port)
  ultimately show ?thesis
    using res unfolding quiet_def ready_def by blast
qed

lemma reset_pad_colors_quiet:
  assumes r: "ready st"
  shows "\<exists>st'. reset_pad_colors steps st = Inr st' \<and> quiet st st'
            \<and> id_button_map st' = id_button_map st
            \<and> current_layout st' = current_layout st"
proof -
  have "cfg_in_key st = True" using r by (simp add: ready_def)
  then show ?thesis
    unfolding reset_pad_colors_def using set_pad_scale_in_key_quiet [OF r] by simp
qed

lemma quiet_refl: "ready st \<Longrightarrow> quiet st st"
  by (simp add: quiet_def kept_refl)

lemma quiet_ready: "quiet st st' \<Longrightarrow> ready st'"
  by (simp add: quiet_def)

lemma get_color_index_quiet:
  "ready st \<Longrightarrow> quiet st (snd (get_color_index rgb_of rnd rgba st))"
  by (simp add: get_color_index_def quiet_def kept_def ready_def write_port_def has_pads_def
        has_buttons_def Let_def split: option.splits prod.splits)

lemma quiet_update:
  assumes "ready st"
  shows "quiet st (st\<lparr>selection_color := c\<rparr>)" "quiet st (st\<lparr>contrast_color := c\<rparr>)"
    "quiet st (st\<lparr>current_pad_target := t\<rparr>)" "quiet st (st\<lparr>splash_start := n\<rparr>)"
    "quiet st (st\<lparr>previous_layout := l\<rparr>)" "quiet st (st\<lparr>current_layout := l\<rparr>)"
  using assms
  by (simp_all add: quiet_def kept_def ready_def has_pads_def has_buttons_def)

lemma set_current_layout_quiet:
  assumes "ready st"
  shows "quiet st (set_current_layout layout st)"
proof -
  have e: "quiet s (effect e s)" if "ready s" "e \<in> range LayoutShow \<union> range LayoutHide
              \<union> range CanvasAdd \<union> range CanvasRemove \<union> {CanvasRequestRedraw}" for s :: "'a push2" and e
    using that by (intro quiet_effect) auto
  show ?thesis
  proof (cases "layout \<noteq> None \<and> layout = current_layout st")
    case True
    then obtain l where "current_layout st = Some l" by auto
    then show ?thesis
      using True e [OF assms, of "LayoutShow l"] by (simp add: set_current_layout_def)
  next
    case False
    let ?st1 = "case current_layout st of
                     None \<Rightarrow> st
                   | Some l \<Rightarrow>
                       (effect (CanvasRemove l) (effect (LayoutHide l) st))
                         \<lparr>previous_layout := current_layout st\<rparr>"
    have q1: "quiet st ?st1"
    proof (cases "current_layout st")
      case None
      then show ?thesis using assms by (simp add: quiet_refl)
    next
      case (Some l)
      have a: "quiet st (effect (LayoutHide l) st)" using e [OF assms] by simp
      have b: "quiet (effect (LayoutHide l) st) (effect (CanvasRemove l) (effect (LayoutHide l) st))"
        using e [OF quiet_ready [OF a]] by simp
      have c: "quiet (effect (CanvasRemove l) (effect (LayoutHide l) st))
                 ((effect (CanvasRemove l) (effect (LayoutHide l) st))
                         \<lparr>previous_layout := current_layout st\<rparr>)"
        by (rule quiet_update(5) [OF quiet_ready [OF b]])
      show ?thesis
        using Some quiet_trans [OF quiet_trans [OF a b] c] by simp
    qed
    let ?st2 = "?st1\<lparr>current_layout := layout\<rparr>"
    have q2: "quiet st ?st2"
      using quiet_trans [OF q1 quiet_update(6) [OF quiet_ready [OF q1]]] .
    let ?st3 = "case current_layout ?st2 of
                     None \<Rightarrow> ?st2
                   | Some l \<Rightarrow> effect (LayoutShow l) (effect (CanvasAdd l) ?st2)"
    have q3: "quiet st ?st3"
    proof (cases "current_layout ?st2")
      case None
      then show ?thesis using q2 by simp
    next
      case (Some l)
      have a: "quiet ?st2 (effect (CanvasAdd l) ?st2)" using e [OF quiet_ready [OF q2]] by simp
      have b: "quiet (effect (CanvasAdd l) ?st2) (effect (LayoutShow l) (effect (CanvasAdd l) ?st2))"
        using e [OF quiet_ready [OF a]] by simp
      show ?thesis
        using Some quiet_trans [OF q2 quiet_trans [OF a b]] by simp
    qed
    have "quiet st (effect CanvasRequestRedraw ?st3)"
      using quiet_trans [OF q3 e [OF quiet_ready [OF q3], of CanvasRequestRedraw]] by simp
    then show ?thesis
      using False unfolding set_current_layout_def Let_def by (simp only: if_False)
  qed
qed

lemma splash_quiet: "ready st \<Longrightarrow> quiet st (splash now st)"
  unfolding splash_def
  using quiet_trans [OF set_current_layout_quiet
          quiet_update(4) [OF quiet_ready [OF set_current_layout_quiet]]]
  by blast

lemma init_touch_strip_quiet: "ready st \<Longrightarrow> quiet st (init_touch_strip st)"
  unfolding init_touch_strip_def by (rule quiet_write_port)

lemma request_pressure_mode_quiet: "ready st \<Longrightarrow> quiet st (request_pressure_mode st)"
  unfolding request_pressure_mode_def by (rule quiet_write_port)

lemma foldl_effect_quiet:
  "ready st \<Longrightarrow> \<forall>x \<in> set xs. f x \<noteq> DebugTrace ''begin using device''
                               \<and> f x \<noteq> DebugTrace ''stop using device''
   \<Longrightarrow> quiet st (foldl (\<lambda>st x. effect (f x) st) st xs)"
proof (induction xs arbitrary: st)
  case Nil
  then show ?case by (simp add: quiet_refl)
next
  case (Cons x xs)
  have a: "quiet st (effect (f x) st)" using Cons.prems by (intro quiet_effect) simp_all
  have "quiet (effect (f x) st) (foldl (\<lambda>st x. effect (f x) st) (effect (f x) st) xs)"
    using Cons.prems(2) by (intro Cons.IH quiet_ready [OF a]) simp
  then show ?case using quiet_trans [OF a] by simp
qed

lemma connect_session_signals_quiet: "ready st \<Longrightarrow> quiet st (connect_session_signals st)"
  unfolding connect_session_signals_def by (rule foldl_effect_quiet) simp_all

lemma stripable_selection_changed_quiet:
  assumes r: "ready st"
  shows "\<exists>st'. stripable_selection_changed w st = Inr st' \<and> quiet st st'"
proof -
  have ip: "input_port st" using r by (simp add: ready_def)
  let ?new = "first_selected_midi_track w"
  show ?thesis
  proof (cases "current_pad_target st \<noteq> map_option track_id ?new")
    case False
    have "quiet st (effect SetStripable st)" using r by (intro quiet_effect) simp_all
    then show ?thesis
      using False ip by (simp add: stripable_selection_changed_def Let_def and_then_def)
  next
    case True
    let ?st1 = "case current_pad_target st of
                  None \<Rightarrow> st
                | Some t \<Rightarrow> if shadow_port w then effect (PadPortDisconnect t) st else st"
    have q1: "quiet st ?st1"
    proof (cases "current_pad_target st")
      case None
      then show ?thesis using r by (simp add: quiet_refl)
    next
      case (Some t)
      then show ?thesis
        using quiet_effect [OF r, of "PadPortDisconnect t"] r by (simp add: quiet_refl)
    qed
    let ?reset = "\<lambda>s :: 'a push2. s\<lparr>current_pad_target := None,
                                   selection_color := Green, contrast_color := Green\<rparr>"
    have qreset: "quiet s (?reset s)" if "ready s" for s :: "'a push2"
      using that by (simp add: quiet_def kept_def ready_def has_pads_def has_buttons_def)
    let ?st2 = "case ?new of
                  None \<Rightarrow> ?reset ?st1
                | Some t \<Rightarrow>
                    if shadow_port w then
                      (let st = (effect (PadPortConnect (track_id t)) ?st1)
                                  \<lparr>current_pad_target := Some (track_id t)\<rparr>;
                           sel = get_color_index (color_to_rgb w) (random1 w) (track_color t) st;
                           st = (snd sel)\<lparr>selection_color := fst sel\<rparr>;
                           con = get_color_index (color_to_rgb w) (random2 w)
                                   (opposite_color w (track_color t)) st
                       in (snd con)\<lparr>contrast_color := fst con\<rparr>)
                    else ?reset ?st1"
    have q2: "quiet ?st1 ?st2"
    proof (cases ?new)
      case None
      then show ?thesis using qreset [OF quiet_ready [OF q1]] by simp
    next
      case (Some t)
      show ?thesis
      proof (cases "shadow_port w")
        case False
        then show ?thesis using Some qreset [OF quiet_ready [OF q1]] by simp
      next
        case True
        let ?a = "effect (PadPortConnect (track_id t)) ?st1"
        let ?b = "?a\<lparr>current_pad_target := Some (track_id t)\<rparr>"
        let ?sel = "get_color_index (color_to_rgb w) (random1 w) (track_color t) ?b"
        let ?c = "(snd ?sel)\<lparr>selection_color := fst ?sel\<rparr>"
        let ?con = "get_color_index (color_to_rgb w) (random2 w)
                      (opposite_color w (track_color t)) ?c"
        let ?d = "(snd ?con)\<lparr>contrast_color := fst ?con\<rparr>"
        have a: "quiet ?st1 ?a" using quiet_ready [OF q1] by (intro quiet_effect) simp_all
        have b: "quiet ?a ?b" by (rule quiet_update(3) [OF quiet_ready [OF a]])
        have s: "quiet ?b (snd ?sel)" by (rule get_color_index_quiet [OF quiet_ready [OF b]])
        have c: "quiet (snd ?sel) ?c" by (rule quiet_update(1) [OF quiet_ready [OF s]])
        have rc: "ready ?c" by (rule quiet_ready [OF c])
        have n: "quiet ?c (snd ?con)" by (rule get_color_index_quiet [OF rc])
        have d: "quiet (snd ?con) ?d" by (rule quiet_update(2) [OF quiet_ready [OF n]])
        have "quiet ?st1 ?d"
          using quiet_trans [OF a quiet_trans [OF b quiet_trans [OF s
                  quiet_trans [OF c quiet_trans [OF n d]]]]] .
        then show ?thesis using Some True by (simp add: Let_def)
      qed
    qed
    have q12: "quiet st ?st2" by (rule quiet_trans [OF q1 q2])
    from reset_pad_colors_quiet [OF quiet_ready [OF q12], of "musical_mode_steps w"]
    obtain st3 where s3: "reset_pad_colors (musical_mode_steps w) ?st2 = Inr st3"
      and q3: "quiet ?st2 st3"
      by blast
    have q4: "quiet st3 (effect SetStripable st3)"
      using quiet_ready [OF q3] by (intro quiet_effect) simp_all
    have run: "stripable_selection_changed w st = Inr (effect SetStripable st3)"
      using True ip s3 by (simp add: stripable_selection_changed_def Let_def and_then_def)
    show ?thesis
      using run quiet_trans [OF q12 quiet_trans [OF q3 q4]] by blast
  qed
qed

lemma quiet_debug_trace:
  "ready st \<Longrightarrow> msg \<noteq> ''begin using device'' \<Longrightarrow> msg \<noteq> ''stop using device''
   \<Longrightarrow> quiet st (debug_trace msg st)"
  by (simp add: quiet_def kept_def ready_def debug_trace_def has_pads_def has_buttons_def)

text \<open>A call of begin_using_device on a driver that is ready returns, with one more call
  recorded and the device in use.\<close>

lemma begin_using_device_calls:
  assumes r: "ready st"
  shows "\<exists>st'. begin_using_device w st = Inr (0, st') \<and> ready st' \<and> in_use st'
           \<and> connection_state st' = connection_state st
           \<and> input_port st' = input_port st \<and> output_port st' = output_port st
           \<and> async_in_name st' = async_in_name st \<and> async_out_name st' = async_out_name st
           \<and> begin_calls (effects st') = begin_calls (effects st) + 1
           \<and> stop_calls (effects st') = stop_calls (effects st)"
proof -
  let ?t = "debug_trace ''begin using device'' st"
  have rt: "ready ?t"
    using r by (simp add: ready_def debug_trace_def has_pads_def has_buttons_def)
  have t: "connection_state ?t = connection_state st" "input_port ?t = input_port st"
    "output_port ?t = output_port st" "async_in_name ?t = async_in_name st"
    "async_out_name ?t = async_out_name st"
    "begin_calls (effects ?t) = begin_calls (effects st) + 1"
    "stop_calls (effects ?t) = stop_calls (effects st)"
    by (simp_all add: debug_trace_def)
  have q1: "quiet ?t (effect VblankConnect ?t)" using rt by (intro quiet_effect) simp_all
  have q2: "quiet (effect VblankConnect ?t) (connect_session_signals (effect VblankConnect ?t))"
    by (rule connect_session_signals_quiet [OF quiet_ready [OF q1]])
  let ?s = "connect_session_signals (effect VblankConnect ?t)"
  from init_buttons_quiet [OF quiet_ready [OF q2], of True]
  obtain s3 where s3: "init_buttons True ?s = Inr s3" and q3: "quiet ?s s3" by blast
  have q4: "quiet s3 (init_touch_strip s3)"
    by (rule init_touch_strip_quiet [OF quiet_ready [OF q3]])
  from reset_pad_colors_quiet [OF quiet_ready [OF q4], of "musical_mode_steps w"]
  obtain s5 where s5: "reset_pad_colors (musical_mode_steps w) (init_touch_strip s3) = Inr s5"
    and q5: "quiet (init_touch_strip s3) s5"
    by blast
  have q6: "quiet s5 (splash (microseconds w) s5)"
    by (rule splash_quiet [OF quiet_ready [OF q5]])
  from stripable_selection_changed_quiet [OF quiet_ready [OF q6], of w]
  obtain s7 where s7: "stripable_selection_changed w (splash (microseconds w) s5) = Inr s7"
    and q7: "quiet (splash (microseconds w) s5) s7"
    by blast
  have q8: "quiet s7 (request_pressure_mode s7)"
    by (rule request_pressure_mode_quiet [OF quiet_ready [OF q7]])
  let ?st' = "(request_pressure_mode s7)\<lparr>in_use := True\<rparr>"
  have run: "begin_using_device w st = Inr (0, ?st')"
    using s3 s5 s7 by (simp add: begin_using_device_def Let_def and_then_def)
  have q: "quiet ?t (request_pressure_mode s7)"
    using quiet_trans [OF q1 quiet_trans [OF q2 quiet_trans [OF q3 quiet_trans [OF q4
            quiet_trans [OF q5 quiet_trans [OF q6 quiet_trans [OF q7 q8]]]]]]] .
  have "ready ?st'"
    using quiet_ready [OF q] by (simp add: ready_def has_pads_def has_buttons_def)
  moreover have "in_use ?st'" by simp
  ultimately show ?thesis
    using run q t unfolding quiet_def kept_def by (intro exI [of _ ?st']) simp
qed

lemma foldl_blackout_pad_quiet: "ready st \<Longrightarrow> quiet st (foldl blackout_pad st ks)"
proof (induction ks arbitrary: st)
  case Nil
  then show ?case by (simp add: quiet_refl)
next
  case (Cons k ks)
  have a: "quiet st (blackout_pad st k)"
    using Cons.prems
    by (simp add: blackout_pad_def quiet_def kept_def ready_def write_port_def has_pads_iff
          has_buttons_def map_of_update_pad split: option.splits)
  from Cons.IH [OF quiet_ready [OF a]] show ?case
    using quiet_trans [OF a] by simp
qed

text \<open>A call of stop_using_device on a driver that is ready returns, with one more call
  recorded and the device not in use.\<close>

lemma stop_using_device_calls:
  assumes r: "ready st"
  shows "\<exists>st'. stop_using_device st = Inr (0, st') \<and> ready st' \<and> \<not> in_use st'
           \<and> connection_state st' = connection_state st
           \<and> input_port st' = input_port st \<and> output_port st' = output_port st
           \<and> async_in_name st' = async_in_name st \<and> async_out_name st' = async_out_name st
           \<and> begin_calls (effects st') = begin_calls (effects st)
           \<and> stop_calls (effects st') = stop_calls (effects st) + 1"
proof -
  let ?t = "debug_trace ''stop using device'' st"
  have rt: "ready ?t"
    using r by (simp add: ready_def debug_trace_def has_pads_def has_buttons_def)
  have t: "connection_state ?t = connection_state st" "input_port ?t = input_port st"
    "output_port ?t = output_port st" "async_in_name ?t = async_in_name st"
    "async_out_name ?t = async_out_name st"
    "begin_calls (effects ?t) = begin_calls (effects st)"
    "stop_calls (effects ?t) = stop_calls (effects st) + 1"
    "in_use ?t = in_use st"
    by (simp_all add: debug_trace_def)
  show ?thesis
  proof (cases "in_use st")
    case False
    let ?st' = "debug_trace ''nothing to do, device not in use'' ?t"
    have q: "quiet ?t ?st'" using rt by (intro quiet_debug_trace) simp_all
    have "stop_using_device st = Inr (0, ?st')"
      using False by (simp add: stop_using_device_def Let_def debug_trace_def)
    then show ?thesis
      using q t False unfolding quiet_def kept_def by (intro exI [of _ ?st']) simp
  next
    case True
    from init_buttons_quiet [OF rt, of False]
    obtain s1 where s1: "init_buttons False ?t = Inr s1" and q1: "quiet ?t s1" by blast
    from strip_buttons_off_quiet [OF quiet_ready [OF q1]]
    obtain s2 where s2: "strip_buttons_off s1 = Inr s2" and q2: "quiet s1 s2" by blast
    have q3: "quiet s2 (foldl blackout_pad s2 (xy_pad_map s2))"
      by (rule foldl_blackout_pad_quiet [OF quiet_ready [OF q2]])
    let ?s3 = "foldl blackout_pad s2 (xy_pad_map s2)"
    have q4: "quiet ?s3 (effect VblankDisconnect ?s3)"
      using quiet_ready [OF q3] by (intro quiet_effect) simp_all
    have q5: "quiet (effect VblankDisconnect ?s3)
                (effect DropSessionConnections (effect VblankDisconnect ?s3))"
      using quiet_ready [OF q4] by (intro quiet_effect) simp_all
    let ?s5 = "effect DropSessionConnections (effect VblankDisconnect ?s3)"
    let ?st' = "?s5\<lparr>in_use := False\<rparr>"
    have run: "stop_using_device st = Inr (0, ?st')"
      using True s1 s2 by (simp add: stop_using_device_def Let_def and_then_def debug_trace_def)
    have q: "quiet ?t ?s5"
      using quiet_trans [OF q1 quiet_trans [OF q2 quiet_trans [OF q3 quiet_trans [OF q4 q5]]]] .
    have "ready ?st'"
      using quiet_ready [OF q] by (simp add: ready_def has_pads_def has_buttons_def)
    moreover have "\<not> in_use ?st'" by simp
    ultimately show ?thesis
      using run q t unfolding quiet_def kept_def by (intro exI [of _ ?st']) simp
  qed
qed

lemma device_acquire_quiet: "ready st \<Longrightarrow> quiet st (snd (device_acquire uo uc st))"
  by (simp add: device_acquire_def quiet_def kept_def ready_def debug_trace_def has_pads_def
        has_buttons_def Let_def)

lemma update_connection_state_Some:
  "update_connection_state name1 name2 yn st = Some st1
   \<Longrightarrow> \<exists>x. st1 = st\<lparr>connection_state := x\<rparr>"
  unfolding update_connection_state_def Let_def
  by (cases "async_in_name st = name1 \<or> async_in_name st = name2";
      cases "async_out_name st = name1 \<or> async_out_name st = name2"; cases yn) auto

lemma update_connection_state_debug_trace:
  "update_connection_state name1 name2 yn (debug_trace msg st)
   = map_option (debug_trace msg) (update_connection_state name1 name2 yn st)"
  unfolding update_connection_state_def Let_def
  by (cases "async_in_name st = name1 \<or> async_in_name st = name2";
      cases "async_out_name st = name1 \<or> async_out_name st = name2"; cases yn)
     (simp_all add: debug_trace_def)

text \<open>A notification about one of the two ports of a driver that is ready calls
  begin_using_device once when both bits are set afterwards, and stop_using_device once
  otherwise, whether or not the notification changed a bit.\<close>

lemma connection_handler_calls:
  assumes r: "ready st" and op: "output_port st"
    and u: "update_connection_state name1 name2 yn st = Some st1"
  shows "\<exists>st'. connection_handler w name1 name2 yn st = Inr (True, st')
           \<and> ready st' \<and> output_port st'
           \<and> connection_state st' = connection_state st1
           \<and> in_use st' = fully_connected st1
           \<and> async_in_name st' = async_in_name st \<and> async_out_name st' = async_out_name st
           \<and> begin_calls (effects st')
               = begin_calls (effects st) + (if fully_connected st1 then 1 else 0)
           \<and> stop_calls (effects st')
               = stop_calls (effects st) + (if fully_connected st1 then 0 else 1)"
proof -
  let ?t = "debug_trace ''FaderPort::connection_handler start'' st"
  let ?t1 = "debug_trace ''FaderPort::connection_handler start'' st1"
  have ip: "input_port st" using r by (simp add: ready_def)
  have ut: "update_connection_state name1 name2 yn ?t = Some ?t1"
    using u by (simp add: update_connection_state_debug_trace)
  obtain x where x: "st1 = st\<lparr>connection_state := x\<rparr>"
    using update_connection_state_Some [OF u] by blast
  have st1: "ready st1" "output_port st1" "async_in_name st1 = async_in_name st"
    "async_out_name st1 = async_out_name st" "effects st1 = effects st"
    using r op unfolding x by (simp_all add: ready_def has_pads_def has_buttons_def)
  let ?s = "debug_trace ''our ports changed connection state'' ?t1"
  have qs: "quiet st1 ?s"
    using quiet_trans [OF quiet_debug_trace [OF st1(1), of "''FaderPort::connection_handler start''"]
            quiet_debug_trace [of ?t1 "''our ports changed connection state''"]]
      quiet_ready [OF quiet_debug_trace [OF st1(1), of "''FaderPort::connection_handler start''"]]
    by simp
  have cs: "connection_state ?s = connection_state st1" by (simp add: debug_trace_def)
  have unf: "connection_handler w name1 name2 yn st
       = and_then
           (if fully_connected st1
            then begin_using_device w
                   (snd (device_acquire (libusb_open w) (libusb_claim w)
                           (debug_trace ''device now connected for both input and output''
                              (effect (Usleep 100000) ?s))))
            else stop_using_device
                   (debug_trace ''Device disconnected or not yet fully connected'' ?s))
           (\<lambda>r. Inr (True, debug_trace ''FaderPort::connection_handler  end''
                               (effect ConnectionChange (snd r))))"
    using ip op ut
    by (simp add: connection_handler_def Let_def fully_connected_def debug_trace_def)
  have fin: "quiet s (debug_trace ''FaderPort::connection_handler  end''
                        (effect ConnectionChange s))" if "ready s" for s :: "'a push2"
    using quiet_trans [OF quiet_effect [OF that, of ConnectionChange]
            quiet_debug_trace [of "effect ConnectionChange s" "''FaderPort::connection_handler  end''"]]
      quiet_ready [OF quiet_effect [OF that, of ConnectionChange]]
    by simp
  show ?thesis
  proof (cases "fully_connected st1")
    case True
    let ?a = "effect (Usleep 100000) ?s"
    let ?b = "debug_trace ''device now connected for both input and output'' ?a"
    let ?c = "snd (device_acquire (libusb_open w) (libusb_claim w) ?b)"
    have qa: "quiet ?s ?a" using quiet_ready [OF qs] by (intro quiet_effect) simp_all
    have qb: "quiet ?a ?b" using quiet_ready [OF qa] by (intro quiet_debug_trace) simp_all
    have qc: "quiet ?b ?c" by (rule device_acquire_quiet [OF quiet_ready [OF qb]])
    have q: "quiet st1 ?c"
      using quiet_trans [OF qs quiet_trans [OF qa quiet_trans [OF qb qc]]] .
    from begin_using_device_calls [OF quiet_ready [OF q], of w]
    obtain s' where b: "begin_using_device w ?c = Inr (0, s')" "ready s'" "in_use s'"
      "connection_state s' = connection_state ?c"
      "input_port s' = input_port ?c" "output_port s' = output_port ?c"
      "async_in_name s' = async_in_name ?c" "async_out_name s' = async_out_name ?c"
      "begin_calls (effects s') = begin_calls (effects ?c) + 1"
      "stop_calls (effects s') = stop_calls (effects ?c)"
      by blast
    let ?st' = "debug_trace ''FaderPort::connection_handler  end'' (effect ConnectionChange s')"
    have run: "connection_handler w name1 name2 yn st = Inr (True, ?st')"
      unfolding unf using True b(1) by (simp add: and_then_def)
    have k: "kept st1 ?c" using q by (simp add: quiet_def)
    have k': "kept s' ?st'" "ready ?st'" using fin [OF b(2)] by (simp_all add: quiet_def)
    show ?thesis
      using run True b(2-) k k' st1 unfolding kept_def
      by (intro exI [of _ ?st']) simp
  next
    case False
    let ?b = "debug_trace ''Device disconnected or not yet fully connected'' ?s"
    have qb: "quiet ?s ?b" using quiet_ready [OF qs] by (intro quiet_debug_trace) simp_all
    have q: "quiet st1 ?b" using quiet_trans [OF qs qb] .
    from stop_using_device_calls [OF quiet_ready [OF q]]
    obtain s' where b: "stop_using_device ?b = Inr (0, s')" "ready s'" "\<not> in_use s'"
      "connection_state s' = connection_state ?b"
      "input_port s' = input_port ?b" "output_port s' = output_port ?b"
      "async_in_name s' = async_in_name ?b" "async_out_name s' = async_out_name ?b"
      "begin_calls (effects s') = begin_calls (effects ?b)"
      "stop_calls (effects s') = stop_calls (effects ?b) + 1"
      by blast
    let ?st' = "debug_trace ''FaderPort::connection_handler  end'' (effect ConnectionChange s')"
    have run: "connection_handler w name1 name2 yn st = Inr (True, ?st')"
      unfolding unf using False b(1) by (simp add: and_then_def)
    have k: "kept st1 ?b" using q by (simp add: quiet_def)
    have k': "kept s' ?st'" "ready ?st'" using fin [OF b(2)] by (simp_all add: quiet_def)
    show ?thesis
      using run False b(2-) k k' st1 unfolding kept_def
      by (intro exI [of _ ?st']) simp
  qed
qed

lemma map_of_map_key:
  "map_of (map (\<lambda>b. (b, f b)) xs) k = (if k \<in> set xs then Some (f k) else None)"
  by (induction xs) auto

lemma example_Push2_ready: "ready example_Push2"
proof -
  have "has_buttons example_Push2"
    unfolding has_buttons_iff
    by (simp add: example_Push2_def new_Push2_def build_color_map_def build_maps_def
          map_of_map_key button_ids_all)
  moreover have "cfg_in_key example_Push2" "input_port example_Push2"
    by (simp_all add: example_Push2_def new_Push2_def build_color_map_def build_maps_def)
  ultimately show ?thesis
    using example_Push2_has_pads by (simp add: ready_def)
qed

lemma example_Push2_connection:
  "output_port example_Push2"
  "async_in_name example_Push2 = ''Push 2 in''" "async_out_name example_Push2 = ''Push 2 out''"
  "connection_state example_Push2 = 0" "\<not> in_use example_Push2"
  "effects example_Push2 = []"
  by (simp_all add: example_Push2_def new_Push2_def build_color_map_def build_maps_def)

lemma state_of_Inr: "state_of (Inr (x, st)) = st"
  by (simp add: state_of_def)

lemma example_input_connected_connection:
  "connection_handler example_outside ''Push 2 in'' ''system:midi_capture_1'' True example_Push2
   = Inr (True, example_input_connected)"
  "ready example_input_connected" "output_port example_input_connected"
  "async_in_name example_input_connected = ''Push 2 in''"
  "async_out_name example_input_connected = ''Push 2 out''"
  "connection_state example_input_connected = 1"
  "\<not> in_use example_input_connected"
  "begin_calls (effects example_input_connected) = 0"
  "stop_calls (effects example_input_connected) = 1"
proof -
  have u: "update_connection_state ''Push 2 in'' ''system:midi_capture_1'' True example_Push2
           = Some (example_Push2\<lparr>connection_state := 1\<rparr>)"
    by (simp add: update_connection_state_def example_Push2_connection InputConnected_def)
  have f: "\<not> fully_connected (example_Push2\<lparr>connection_state := 1\<rparr>)"
    by (simp add: fully_connected_def InputConnected_def OutputConnected_def)
  from connection_handler_calls [OF example_Push2_ready example_Push2_connection(1) u,
         of example_outside]
  obtain st' where c: "connection_handler example_outside ''Push 2 in''
                         ''system:midi_capture_1'' True example_Push2 = Inr (True, st')"
    "ready st'" "output_port st'"
    "connection_state st' = connection_state (example_Push2\<lparr>connection_state := 1\<rparr>)"
    "in_use st' = fully_connected (example_Push2\<lparr>connection_state := 1\<rparr>)"
    "async_in_name st' = async_in_name example_Push2"
    "async_out_name st' = async_out_name example_Push2"
    "begin_calls (effects st')
       = begin_calls (effects example_Push2)
         + (if fully_connected (example_Push2\<lparr>connection_state := 1\<rparr>) then 1 else 0)"
    "stop_calls (effects st')
       = stop_calls (effects example_Push2)
         + (if fully_connected (example_Push2\<lparr>connection_state := 1\<rparr>) then 0 else 1)"
    by blast
  have e: "example_input_connected = st'"
    unfolding example_input_connected_def c(1) by (rule state_of_Inr)
  show "connection_handler example_outside ''Push 2 in'' ''system:midi_capture_1'' True example_Push2
   = Inr (True, example_input_connected)"
    "ready example_input_connected" "output_port example_input_connected"
    "async_in_name example_input_connected = ''Push 2 in''"
    "async_out_name example_input_connected = ''Push 2 out''"
    "connection_state example_input_connected = 1"
    "\<not> in_use example_input_connected"
    "begin_calls (effects example_input_connected) = 0"
    "stop_calls (effects example_input_connected) = 1"
    unfolding e using c f by (simp_all add: example_Push2_connection)
qed

lemma example_connected_connection:
  "connection_handler example_outside ''system:midi_playback_1'' ''Push 2 out'' True
     example_input_connected
   = Inr (True, example_connected)"
  "ready example_connected" "output_port example_connected"
  "async_in_name example_connected = ''Push 2 in''"
  "async_out_name example_connected = ''Push 2 out''"
  "connection_state example_connected = 3"
  "in_use example_connected"
  "begin_calls (effects example_connected) = 1"
  "stop_calls (effects example_connected) = 1"
proof -
  note i = example_input_connected_connection
  have u: "update_connection_state ''system:midi_playback_1'' ''Push 2 out'' True
             example_input_connected
           = Some (example_input_connected\<lparr>connection_state := 3\<rparr>)"
    by (simp add: update_connection_state_def i OutputConnected_def)
  have f: "fully_connected (example_input_connected\<lparr>connection_state := 3\<rparr>)"
    by (simp add: fully_connected_def InputConnected_def OutputConnected_def)
  from connection_handler_calls [OF i(2) i(3) u, of example_outside]
  obtain st' where c: "connection_handler example_outside ''system:midi_playback_1''
                         ''Push 2 out'' True example_input_connected = Inr (True, st')"
    "ready st'" "output_port st'"
    "connection_state st' = connection_state (example_input_connected\<lparr>connection_state := 3\<rparr>)"
    "in_use st' = fully_connected (example_input_connected\<lparr>connection_state := 3\<rparr>)"
    "async_in_name st' = async_in_name example_input_connected"
    "async_out_name st' = async_out_name example_input_connected"
    "begin_calls (effects st')
       = begin_calls (effects example_input_connected)
         + (if fully_connected (example_input_connected\<lparr>connection_state := 3\<rparr>) then 1 else 0)"
    "stop_calls (effects st')
       = stop_calls (effects example_input_connected)
         + (if fully_connected (example_input_connected\<lparr>connection_state := 3\<rparr>) then 0 else 1)"
    by blast
  have e: "example_connected = st'"
    unfolding example_connected_def c(1) by (rule state_of_Inr)
  show "connection_handler example_outside ''system:midi_playback_1'' ''Push 2 out'' True
     example_input_connected
   = Inr (True, example_connected)"
    "ready example_connected" "output_port example_connected"
    "async_in_name example_connected = ''Push 2 in''"
    "async_out_name example_connected = ''Push 2 out''"
    "connection_state example_connected = 3"
    "in_use example_connected"
    "begin_calls (effects example_connected) = 1"
    "stop_calls (effects example_connected) = 1"
    unfolding e using c f by (simp_all add: i)
qed

text \<open>C6: from the disconnected state, the input-connected and then the output-connected
  notification reach the fully connected state with one call of begin_using_device; losing
  the output connection from there calls stop_using_device once and begin_using_device not
  at all. A further input-connected notification in the fully connected state, which repeats
  the state of the input bit, leaves the connection state as it is and calls
  begin_using_device a second time. Each of the four notifications returns true.\<close>

theorem connection_handler_repeated_notification:
  "connection_state example_Push2 = 0
   \<and> connection_handler example_outside ''Push 2 in'' ''system:midi_capture_1'' True
        example_Push2
      = Inr (True, example_input_connected)
   \<and> connection_handler example_outside ''system:midi_playback_1'' ''Push 2 out'' True
        example_input_connected
      = Inr (True, example_connected)
   \<and> connection_state example_connected = 3
   \<and> in_use example_connected
   \<and> begin_calls (effects example_connected) = 1
   \<and> connection_handler example_outside ''Push 2 out'' ''system:midi_playback_1'' False
        example_connected
      = Inr (True, example_output_lost)
   \<and> connection_state example_output_lost = 1
   \<and> \<not> in_use example_output_lost
   \<and> stop_calls (effects example_output_lost) = stop_calls (effects example_connected) + 1
   \<and> begin_calls (effects example_output_lost) = 1
   \<and> connection_handler example_outside ''Push 2 in'' ''system:midi_capture_2'' True
        example_connected
      = Inr (True, example_connected_again)
   \<and> connection_state example_connected_again = 3
   \<and> begin_calls (effects example_connected_again) = 2"
proof -
  note c = example_connected_connection
  have u: "update_connection_state ''Push 2 in'' ''system:midi_capture_2'' True
             example_connected
           = Some (example_connected\<lparr>connection_state := 3\<rparr>)"
    by (simp add: update_connection_state_def c InputConnected_def)
  have f: "fully_connected (example_connected\<lparr>connection_state := 3\<rparr>)"
    by (simp add: fully_connected_def InputConnected_def OutputConnected_def)
  from connection_handler_calls [OF c(2) c(3) u, of example_outside]
  obtain st' where a: "connection_handler example_outside ''Push 2 in''
                         ''system:midi_capture_2'' True example_connected = Inr (True, st')"
    "connection_state st' = connection_state (example_connected\<lparr>connection_state := 3\<rparr>)"
    "begin_calls (effects st')
       = begin_calls (effects example_connected)
         + (if fully_connected (example_connected\<lparr>connection_state := 3\<rparr>) then 1 else 0)"
    by blast
  have ea: "example_connected_again = st'"
    unfolding example_connected_again_def a(1) by (rule state_of_Inr)
  have again: "connection_handler example_outside ''Push 2 in'' ''system:midi_capture_2'' True
        example_connected
      = Inr (True, example_connected_again)"
    "connection_state example_connected_again = 3"
    "begin_calls (effects example_connected_again) = 2"
    unfolding ea using a f by (simp_all add: c)
  have u': "update_connection_state ''Push 2 out'' ''system:midi_playback_1'' False
              example_connected
            = Some (example_connected\<lparr>connection_state := 1\<rparr>)"
    by (simp add: update_connection_state_def c OutputConnected_def)
  have f': "\<not> fully_connected (example_connected\<lparr>connection_state := 1\<rparr>)"
    by (simp add: fully_connected_def InputConnected_def OutputConnected_def)
  from connection_handler_calls [OF c(2) c(3) u', of example_outside]
  obtain st'' where b: "connection_handler example_outside ''Push 2 out''
                         ''system:midi_playback_1'' False example_connected = Inr (True, st'')"
    "connection_state st'' = connection_state (example_connected\<lparr>connection_state := 1\<rparr>)"
    "in_use st'' = fully_connected (example_connected\<lparr>connection_state := 1\<rparr>)"
    "begin_calls (effects st'')
       = begin_calls (effects example_connected)
         + (if fully_connected (example_connected\<lparr>connection_state := 1\<rparr>) then 1 else 0)"
    "stop_calls (effects st'')
       = stop_calls (effects example_connected)
         + (if fully_connected (example_connected\<lparr>connection_state := 1\<rparr>) then 0 else 1)"
    by blast
  have el: "example_output_lost = st''"
    unfolding example_output_lost_def b(1) by (rule state_of_Inr)
  have lost: "connection_handler example_outside ''Push 2 out'' ''system:midi_playback_1'' False
        example_connected
      = Inr (True, example_output_lost)"
    "connection_state example_output_lost = 1"
    "\<not> in_use example_output_lost"
    "stop_calls (effects example_output_lost) = stop_calls (effects example_connected) + 1"
    "begin_calls (effects example_output_lost) = 1"
    unfolding el using b f' by (simp_all add: c)
  show ?thesis
    using again lost c(1,6,7,8) example_input_connected_connection(1)
      example_Push2_connection(4)
    by simp
qed

text \<open>The witness of C6: in the connected driver both ports are registered, so the
  notification is not turned away, and the repeated notification adds a call of
  begin_using_device to the one recorded.\<close>

theorem connection_handler_repeated_notification_witness:
  "input_port example_connected \<and> output_port example_connected
   \<and> connection_handler example_outside ''Push 2 in'' ''system:midi_capture_2'' True
        example_connected
      = Inr (True, example_connected_again)
   \<and> begin_calls (effects example_connected_again)
      = begin_calls (effects example_connected) + 1"
proof -
  have "input_port example_connected"
    using example_connected_connection(2) by (simp add: ready_def)
  then show ?thesis
    using connection_handler_repeated_notification example_connected_connection(3) by simp
qed

end
